theory Spec2Isabelle
  imports Main "HOL-Library.Word" "HOL-Library.Sublist"
begin

section \<open>The pipe of kernel/pipe.c\<close>

text \<open>
  A shallow embedding of the byte pipe of \<^verbatim>\<open>kernel/pipe.c\<close>: a ring of
  \<^verbatim>\<open>buffer_size\<close> bytes with a read index \<^verbatim>\<open>head\<close>, a write index
  \<^verbatim>\<open>tail\<close>, a flag word, a count of waiting threads and two wait queues.

  \<^verbatim>\<open>size_t\<close> is a 32-bit word, so every \<^verbatim>\<open>size_t\<close> expression wraps as in C.
  What is undefined behaviour in C (a remainder by zero, a \<^verbatim>\<open>memcpy\<close> outside the
  storage) is a value of type \<open>fault\<close>.
\<close>

subsection \<open>Types\<close>

type_synonym size_t = "32 word"
type_synonym uint8_t = "8 word"
type_synonym tid = nat

datatype fault = DivisionByZero | OutOfBounds

text \<open>
  Modelled from the spec: the macros \<^verbatim>\<open>PIPE_FLAG_OPEN\<close>, \<^verbatim>\<open>PIPE_FLAG_RESET\<close> and
  \<^verbatim>\<open>PIPE_FLAG_FULL\<close> are declared in a header that is not part of the sources at
  hand. The spec calls them independent bits of a small bit field, so the flag word
  is the set of the bits that are on: \<^verbatim>\<open>flags & F\<close> is \<open>F \<in> flags\<close>,
  \<^verbatim>\<open>flags |= F\<close> is \<open>insert F flags\<close>, \<^verbatim>\<open>flags &= ~F\<close> is \<open>flags - {F}\<close> and
  \<^verbatim>\<open>flags = 0\<close> is \<open>{}\<close>.
\<close>

datatype pipe_flag = PIPE_FLAG_OPEN | PIPE_FLAG_RESET | PIPE_FLAG_FULL

text \<open>
  Modelled from the spec: \<^verbatim>\<open>k_timeout_t\<close>, \<^verbatim>\<open>K_NO_WAIT\<close>, \<^verbatim>\<open>K_FOREVER\<close> and
  \<^verbatim>\<open>K_TIMEOUT_EQ\<close> come from the kernel headers: a timeout is a number of ticks, no-wait
  is zero ticks and forever is \<open>-1\<close>.
\<close>

type_synonym k_timeout_t = int

definition K_NO_WAIT :: k_timeout_t where
  "K_NO_WAIT = 0"

definition K_FOREVER :: k_timeout_t where
  "K_FOREVER = - 1"

definition K_TIMEOUT_EQ :: "k_timeout_t \<Rightarrow> k_timeout_t \<Rightarrow> bool" where
  "K_TIMEOUT_EQ a b = (a = b)"

text \<open>
  Modelled from the spec: the error numbers come from \<^verbatim>\<open>errno.h\<close>, which is not among
  the sources at hand. The spec names them by their POSIX names; the values are those
  of the kernel's own \<^verbatim>\<open>errno.h\<close>. The code only needs them to be distinct and positive.
\<close>

definition EAGAIN :: int where
  "EAGAIN = 11"

definition EPIPE :: int where
  "EPIPE = 32"

definition EALREADY :: int where
  "EALREADY = 120"

definition ECANCELED :: int where
  "ECANCELED = 140"

text \<open>
  Modelled from the spec: \<^verbatim>\<open>struct k_pipe\<close> is declared in a kernel header; its fields
  are the ones \<^verbatim>\<open>pipe.c\<close> reads and writes. A wait queue is the list of the threads
  suspended on it, the earliest first; the spin lock is held or not.
\<close>

record k_pipe =
  buffer :: "uint8_t list"
  buffer_size :: size_t
  head :: size_t
  tail :: size_t
  waiting :: size_t
  flags :: "pipe_flag set"
  lock :: bool
  data :: "tid list"
  space :: "tid list"

subsection \<open>Collaborators: spin lock, wait queues, memcpy\<close>

text \<open>
  Modelled from the spec: the spin lock and the wait queue primitives belong to the
  kernel's scheduler, outside \<^verbatim>\<open>pipe.c\<close>. The spec gives their contracts: lock and
  unlock; suspend the current thread on a queue while releasing the lock atomically;
  take the first thread, or all threads, off a queue and make them ready.
\<close>

definition k_spin_lock :: "k_pipe \<Rightarrow> k_pipe" where
  "k_spin_lock pipe = pipe\<lparr>lock := True\<rparr>"

definition k_spin_unlock :: "k_pipe \<Rightarrow> k_pipe" where
  "k_spin_unlock pipe = pipe\<lparr>lock := False\<rparr>"

datatype waitq = WQ_data | WQ_space

definition waitq_get :: "waitq \<Rightarrow> k_pipe \<Rightarrow> tid list" where
  "waitq_get wq pipe = (case wq of WQ_data \<Rightarrow> data pipe | WQ_space \<Rightarrow> space pipe)"

definition waitq_set :: "waitq \<Rightarrow> tid list \<Rightarrow> k_pipe \<Rightarrow> k_pipe" where
  "waitq_set wq ts pipe = (case wq of WQ_data \<Rightarrow> pipe\<lparr>data := ts\<rparr> | WQ_space \<Rightarrow> pipe\<lparr>space := ts\<rparr>)"

text \<open>
  Modelled from the spec: \<^verbatim>\<open>z_pend_curr\<close> releases the lock and suspends the calling
  thread at the end of the queue, in one atomic step.
\<close>

definition z_pend_curr :: "waitq \<Rightarrow> tid \<Rightarrow> k_pipe \<Rightarrow> k_pipe" where
  "z_pend_curr wq t pipe = waitq_set wq (waitq_get wq pipe @ [t]) (k_spin_unlock pipe)"

text \<open>
  Modelled from the spec: \<^verbatim>\<open>z_unpend_all\<close> empties a queue; the threads that were on it
  are made ready. The result is the pipe and the threads woken.
\<close>

definition z_unpend_all :: "waitq \<Rightarrow> k_pipe \<Rightarrow> k_pipe \<times> tid list" where
  "z_unpend_all wq pipe = (waitq_set wq [] pipe, waitq_get wq pipe)"

text \<open>
  \<^verbatim>\<open>memcpy (&dst[i], &src[j], n)\<close>: outside the destination or the source it is
  undefined.
\<close>

definition memcpy :: "uint8_t list \<Rightarrow> nat \<Rightarrow> uint8_t list \<Rightarrow> nat \<Rightarrow> nat \<Rightarrow> fault + uint8_t list" where
  "memcpy dst i src j n =
     (if i + n \<le> length dst \<and> j + n \<le> length src
      then Inr (take i dst @ take n (drop j src) @ drop (i + n) dst)
      else Inl OutOfBounds)"

subsection \<open>Occupancy\<close>

definition utilization :: "k_pipe \<Rightarrow> fault + size_t" where
  "utilization pipe =
     (if PIPE_FLAG_FULL \<in> flags pipe then Inr (buffer_size pipe)
      else if buffer_size pipe = 0 then Inl DivisionByZero
      else Inr ((tail pipe - head pipe + buffer_size pipe) mod buffer_size pipe))"

definition queue_full :: "k_pipe \<Rightarrow> fault + bool" where
  "queue_full pipe =
     (case utilization pipe of Inl f \<Rightarrow> Inl f | Inr u \<Rightarrow> Inr (u = buffer_size pipe))"

definition queue_empty :: "k_pipe \<Rightarrow> fault + bool" where
  "queue_empty pipe =
     (case utilization pipe of Inl f \<Rightarrow> Inl f | Inr u \<Rightarrow> Inr (u = 0))"

subsection \<open>The wait helper\<close>

text \<open>
  \<^verbatim>\<open>wait_for\<close> suspends the caller in its middle, so it is two functions: the part
  before the suspension, which either returns at once (\<open>Some rc\<close>) or leaves the thread
  suspended on the queue (\<open>None\<close>), and the part that runs when the thread is resumed.
\<close>

definition wait_for_pend :: "waitq \<Rightarrow> k_pipe \<Rightarrow> k_timeout_t \<Rightarrow> tid \<Rightarrow> int option \<times> k_pipe" where
  "wait_for_pend wq pipe timeout t =
     (if K_TIMEOUT_EQ timeout K_NO_WAIT \<or> PIPE_FLAG_RESET \<in> flags pipe
      then (Some (- EAGAIN), k_spin_unlock pipe)
      else (None, z_pend_curr wq t (pipe\<lparr>waiting := waiting pipe + 1\<rparr>)))"

definition wait_for_wake :: "k_pipe \<Rightarrow> (k_pipe \<Rightarrow> fault + bool) \<Rightarrow> fault + (int \<times> k_pipe)" where
  "wait_for_wake pipe0 cond =
     (let pipe1 = k_spin_lock pipe0;
          pipe = pipe1\<lparr>waiting := waiting pipe1 - 1\<rparr>
      in if PIPE_FLAG_OPEN \<notin> flags pipe then Inr (- EPIPE, pipe)
         else if PIPE_FLAG_RESET \<in> flags pipe
         then Inr (- ECANCELED,
                   if waiting pipe = 0 then pipe\<lparr>flags := flags pipe - {PIPE_FLAG_RESET}\<rparr>
                   else pipe)
         else (case cond pipe of
                 Inl f \<Rightarrow> Inl f
               | Inr c \<Rightarrow> if \<not> c then Inr (0, pipe) else Inr (- EAGAIN, pipe)))"

text \<open>
  \<^verbatim>\<open>notify_waiter\<close> makes the first thread of a queue ready, if there is one
  (\<^verbatim>\<open>z_unpend_first_thread\<close> and \<^verbatim>\<open>z_ready_thread\<close>, modelled from the spec as above).
\<close>

definition notify_waiter :: "waitq \<Rightarrow> k_pipe \<Rightarrow> k_pipe \<times> tid list" where
  "notify_waiter wq pipe =
     (case waitq_get wq pipe of
        [] \<Rightarrow> (pipe, [])
      | thread_to_unblock # rest \<Rightarrow> (waitq_set wq rest pipe, [thread_to_unblock]))"

subsection \<open>init, reset and close\<close>

definition z_impl_k_pipe_init :: "uint8_t list \<Rightarrow> size_t \<Rightarrow> k_pipe" where
  "z_impl_k_pipe_init storage sz =
     \<lparr>buffer = storage, buffer_size = sz, head = 0, tail = 0, waiting = 0,
      flags = {PIPE_FLAG_OPEN}, lock = False, data = [], space = []\<rparr>"

text \<open>The results are the return value, the pipe and the threads made ready.\<close>

definition z_impl_k_pipe_reset :: "k_pipe \<Rightarrow> int \<times> k_pipe \<times> tid list" where
  "z_impl_k_pipe_reset pipe0 =
     (let pipe1 = k_spin_lock pipe0;
          pipe2 = pipe1\<lparr>head := 0\<rparr>;
          pipe3 = pipe2\<lparr>tail := 0\<rparr>;
          pipe4 = pipe3\<lparr>flags := insert PIPE_FLAG_RESET (flags pipe3)\<rparr>;
          (pipe5, woken_data) = z_unpend_all WQ_data pipe4;
          (pipe6, woken_space) = z_unpend_all WQ_space pipe5
      in (0, k_spin_unlock pipe6, woken_data @ woken_space))"

definition z_impl_k_pipe_close :: "k_pipe \<Rightarrow> int \<times> k_pipe \<times> tid list" where
  "z_impl_k_pipe_close pipe0 =
     (let pipe1 = k_spin_lock pipe0
      in if PIPE_FLAG_OPEN \<notin> flags pipe1 then (- EALREADY, k_spin_unlock pipe1, [])
         else
           (let pipe2 = pipe1\<lparr>flags := {}\<rparr>;
                (pipe3, woken_data) = z_unpend_all WQ_data pipe2;
                (pipe4, woken_space) = z_unpend_all WQ_space pipe3
            in (0, k_spin_unlock pipe4, woken_data @ woken_space)))"

subsection \<open>write\<close>

text \<open>
  A call that may suspend is two functions as well: the call up to its return or its
  suspension (the return value is \<open>None\<close> when the thread is left suspended), and the
  rest of the call from the moment the thread is resumed inside \<^verbatim>\<open>wait_for\<close>. Both
  end in the same code, the transfer: the part of \<^verbatim>\<open>z_impl_k_pipe_write\<close> from the test
  of the open flag to the return of \<^verbatim>\<open>write_len\<close>.

  The count \<^verbatim>\<open>write_len\<close> is a \<^verbatim>\<open>size_t\<close> returned through an \<^verbatim>\<open>int\<close>: \<open>sint\<close> reads
  the word as two's complement. When \<^verbatim>\<open>wait_for\<close> returns at once it has released the
  lock, and the caller releases it again; releasing a free lock changes nothing here.
\<close>

definition k_pipe_write_xfer :: "k_pipe \<Rightarrow> uint8_t list \<Rightarrow> size_t \<Rightarrow> fault + (int \<times> k_pipe \<times> tid list)" where
  "k_pipe_write_xfer pipe dat len =
     (if PIPE_FLAG_OPEN \<notin> flags pipe then Inr (- EPIPE, k_spin_unlock pipe, [])
      else case utilization pipe of
        Inl f \<Rightarrow> Inl f
      | Inr u \<Rightarrow>
         (let write_len = min (buffer_size pipe - u) len;
              first_chunk = min (buffer_size pipe - tail pipe) write_len;
              second_chunk = write_len - first_chunk
          in case memcpy (buffer pipe) (unat (tail pipe)) dat 0 (unat first_chunk) of
               Inl f \<Rightarrow> Inl f
             | Inr buf1 \<Rightarrow>
                (case (if second_chunk > 0
                       then memcpy buf1 0 dat (unat first_chunk) (unat second_chunk)
                       else Inr buf1) of
                   Inl f \<Rightarrow> Inl f
                 | Inr buf2 \<Rightarrow>
                    if buffer_size pipe = 0 then Inl DivisionByZero
                    else
                      (let pipe1 = pipe\<lparr>buffer := buf2\<rparr>;
                           pipe2 = pipe1\<lparr>tail := (tail pipe1 + write_len) mod buffer_size pipe1\<rparr>
                       in if write_len \<noteq> 0
                          then
                            (let (pipe3, woken) = notify_waiter WQ_data pipe2;
                                 pipe4 = (if tail pipe3 = head pipe3
                                          then pipe3\<lparr>flags := insert PIPE_FLAG_FULL (flags pipe3)\<rparr>
                                          else pipe3)
                             in Inr (sint write_len, k_spin_unlock pipe4, woken))
                          else Inr (sint write_len, k_spin_unlock pipe2, [])))))"

definition z_impl_k_pipe_write ::
  "k_pipe \<Rightarrow> uint8_t list \<Rightarrow> size_t \<Rightarrow> k_timeout_t \<Rightarrow> tid \<Rightarrow> fault + (int option \<times> k_pipe \<times> tid list)" where
  "z_impl_k_pipe_write pipe0 dat len timeout t =
     (let pipe = k_spin_lock pipe0
      in case queue_full pipe of
           Inl f \<Rightarrow> Inl f
         | Inr full \<Rightarrow>
            if full
            then (case wait_for_pend WQ_space pipe timeout t of
                    (None, pipe') \<Rightarrow> Inr (None, pipe', [])
                  | (Some rc, pipe') \<Rightarrow>
                      if rc \<noteq> 0 then Inr (Some rc, k_spin_unlock pipe', [])
                      else map_sum id (map_prod Some id) (k_pipe_write_xfer pipe' dat len))
            else map_sum id (map_prod Some id) (k_pipe_write_xfer pipe dat len))"

definition z_impl_k_pipe_write_resume ::
  "k_pipe \<Rightarrow> uint8_t list \<Rightarrow> size_t \<Rightarrow> fault + (int \<times> k_pipe \<times> tid list)" where
  "z_impl_k_pipe_write_resume pipe0 dat len =
     (case wait_for_wake pipe0 queue_full of
        Inl f \<Rightarrow> Inl f
      | Inr (rc, pipe) \<Rightarrow>
          if rc \<noteq> 0 then Inr (rc, k_spin_unlock pipe, [])
          else k_pipe_write_xfer pipe dat len)"

subsection \<open>read\<close>

text \<open>
  The caller's destination \<open>dst\<close> is passed in and returned with the bytes copied
  into it. The transfer is the part of \<^verbatim>\<open>z_impl_k_pipe_read\<close> from the second test of
  the occupancy to the return of \<^verbatim>\<open>read_len\<close>.
\<close>

definition k_pipe_read_xfer ::
  "k_pipe \<Rightarrow> uint8_t list \<Rightarrow> size_t \<Rightarrow> fault + ((int \<times> uint8_t list) \<times> k_pipe \<times> tid list)" where
  "k_pipe_read_xfer pipe dst len =
     (case utilization pipe of
        Inl f \<Rightarrow> Inl f
      | Inr u \<Rightarrow>
         if u = 0 \<and> PIPE_FLAG_OPEN \<notin> flags pipe
         then Inr ((- EPIPE, dst), k_spin_unlock pipe, [])
         else
           (let read_len = min len u;
                first_chunk = min (buffer_size pipe - head pipe) read_len;
                second_chunk = read_len - first_chunk
            in case memcpy dst 0 (buffer pipe) (unat (head pipe)) (unat first_chunk) of
                 Inl f \<Rightarrow> Inl f
               | Inr dst1 \<Rightarrow>
                  (case (if second_chunk > 0
                         then memcpy dst1 (unat first_chunk) (buffer pipe) 0 (unat second_chunk)
                         else Inr dst1) of
                     Inl f \<Rightarrow> Inl f
                   | Inr dst2 \<Rightarrow>
                      if buffer_size pipe = 0 then Inl DivisionByZero
                      else
                        (let pipe1 = pipe\<lparr>head := (head pipe + read_len) mod buffer_size pipe\<rparr>
                         in if read_len \<noteq> 0
                            then
                              (let pipe2 = pipe1\<lparr>flags := flags pipe1 - {PIPE_FLAG_FULL}\<rparr>;
                                   (pipe3, woken) = notify_waiter WQ_space pipe2
                               in Inr ((sint read_len, dst2), k_spin_unlock pipe3, woken))
                            else Inr ((sint read_len, dst2), k_spin_unlock pipe1, [])))))"

definition z_impl_k_pipe_read ::
  "k_pipe \<Rightarrow> uint8_t list \<Rightarrow> size_t \<Rightarrow> k_timeout_t \<Rightarrow> tid
     \<Rightarrow> fault + ((int \<times> uint8_t list) option \<times> k_pipe \<times> tid list)" where
  "z_impl_k_pipe_read pipe0 dst len timeout t =
     (let pipe = k_spin_lock pipe0
      in case utilization pipe of
           Inl f \<Rightarrow> Inl f
         | Inr u \<Rightarrow>
            if u = 0 \<and> PIPE_FLAG_OPEN \<in> flags pipe
            then (case wait_for_pend WQ_data pipe timeout t of
                    (None, pipe') \<Rightarrow> Inr (None, pipe', [])
                  | (Some rc, pipe') \<Rightarrow>
                      if rc \<noteq> 0 \<and> rc \<noteq> - EPIPE then Inr (Some (rc, dst), k_spin_unlock pipe', [])
                      else map_sum id (map_prod Some id) (k_pipe_read_xfer pipe' dst len))
            else map_sum id (map_prod Some id) (k_pipe_read_xfer pipe dst len))"

definition z_impl_k_pipe_read_resume ::
  "k_pipe \<Rightarrow> uint8_t list \<Rightarrow> size_t \<Rightarrow> fault + ((int \<times> uint8_t list) \<times> k_pipe \<times> tid list)" where
  "z_impl_k_pipe_read_resume pipe0 dst len =
     (case wait_for_wake pipe0 queue_empty of
        Inl f \<Rightarrow> Inl f
      | Inr (rc, pipe) \<Rightarrow>
          if rc \<noteq> 0 \<and> rc \<noteq> - EPIPE then Inr ((rc, dst), k_spin_unlock pipe, [])
          else k_pipe_read_xfer pipe dst len)"

section \<open>Threads calling the pipe\<close>

text \<open>
  Every operation runs under the pipe's spin lock, so between a lock and the next
  unlock or suspension it is one atomic step. A thread is idle, suspended on a wait
  queue in the middle of a call, or made ready again and about to resume that call.
  The kernel state is the pipe, the state of every thread and the list of the calls
  that have returned, in the order of their returns.
\<close>

datatype call =
    Write "uint8_t list" size_t k_timeout_t
  | Read "uint8_t list" size_t k_timeout_t
  | Reset
  | Close

datatype thread = Idle | Pended call | Readied call

datatype event = Call tid call | Timeout tid | Resume tid

type_synonym ret = "tid \<times> call \<times> int \<times> uint8_t list"

record kernel =
  kpipe :: k_pipe
  threads :: "tid \<Rightarrow> thread"
  returns :: "ret list"

definition timeout_of :: "call \<Rightarrow> k_timeout_t" where
  "timeout_of c = (case c of Write _ _ timeout \<Rightarrow> timeout | Read _ _ timeout \<Rightarrow> timeout | _ \<Rightarrow> K_NO_WAIT)"

text \<open>\<^verbatim>\<open>z_ready_thread\<close> for each thread taken off a wait queue.\<close>

definition z_ready_threads :: "tid list \<Rightarrow> (tid \<Rightarrow> thread) \<Rightarrow> (tid \<Rightarrow> thread)" where
  "z_ready_threads woken ths =
     (\<lambda>t. if t \<in> set woken then (case ths t of Pended c \<Rightarrow> Readied c | s \<Rightarrow> s) else ths t)"

text \<open>The scheduler takes a thread whose timeout expires off its wait queue.\<close>

definition z_unpend_thread :: "tid \<Rightarrow> k_pipe \<Rightarrow> k_pipe" where
  "z_unpend_thread t p = p\<lparr>data := removeAll t (data p), space := removeAll t (space p)\<rparr>"

definition finish :: "tid \<Rightarrow> call \<Rightarrow> (int \<times> uint8_t list) option \<Rightarrow> k_pipe \<Rightarrow> tid list \<Rightarrow> kernel \<Rightarrow> kernel" where
  "finish t c r p woken k =
     (case r of
        None \<Rightarrow> k\<lparr>kpipe := p, threads := z_ready_threads woken ((threads k)(t := Pended c))\<rparr>
      | Some (rc, out) \<Rightarrow>
          k\<lparr>kpipe := p, threads := z_ready_threads woken ((threads k)(t := Idle)),
            returns := returns k @ [(t, c, rc, out)]\<rparr>)"

definition call_enter :: "tid \<Rightarrow> call \<Rightarrow> kernel \<Rightarrow> fault + kernel" where
  "call_enter t c k =
     (case c of
        Write dat len timeout \<Rightarrow>
          (case z_impl_k_pipe_write (kpipe k) dat len timeout t of
             Inl f \<Rightarrow> Inl f
           | Inr (r, p, woken) \<Rightarrow> Inr (finish t c (map_option (\<lambda>rc. (rc, [])) r) p woken k))
      | Read dst len timeout \<Rightarrow>
          (case z_impl_k_pipe_read (kpipe k) dst len timeout t of
             Inl f \<Rightarrow> Inl f
           | Inr (r, p, woken) \<Rightarrow> Inr (finish t c r p woken k))
      | Reset \<Rightarrow>
          (case z_impl_k_pipe_reset (kpipe k) of
             (rc, p, woken) \<Rightarrow> Inr (finish t c (Some (rc, [])) p woken k))
      | Close \<Rightarrow>
          (case z_impl_k_pipe_close (kpipe k) of
             (rc, p, woken) \<Rightarrow> Inr (finish t c (Some (rc, [])) p woken k)))"

definition call_resume :: "tid \<Rightarrow> call \<Rightarrow> kernel \<Rightarrow> fault + kernel" where
  "call_resume t c k =
     (case c of
        Write dat len timeout \<Rightarrow>
          (case z_impl_k_pipe_write_resume (kpipe k) dat len of
             Inl f \<Rightarrow> Inl f
           | Inr (rc, p, woken) \<Rightarrow> Inr (finish t c (Some (rc, [])) p woken k))
      | Read dst len timeout \<Rightarrow>
          (case z_impl_k_pipe_read_resume (kpipe k) dst len of
             Inl f \<Rightarrow> Inl f
           | Inr (r, p, woken) \<Rightarrow> Inr (finish t c (Some r) p woken k))
      | _ \<Rightarrow> Inr k)"

text \<open>An event that is not enabled leaves the state as it is.\<close>

fun step :: "event \<Rightarrow> kernel \<Rightarrow> fault + kernel" where
  "step (Call t c) k = (if threads k t = Idle then call_enter t c k else Inr k)"
| "step (Timeout t) k =
     (case threads k t of
        Pended c \<Rightarrow>
          if timeout_of c = K_FOREVER then Inr k
          else Inr (k\<lparr>kpipe := z_unpend_thread t (kpipe k), threads := (threads k)(t := Readied c)\<rparr>)
      | _ \<Rightarrow> Inr k)"
| "step (Resume t) k =
     (case threads k t of
        Readied c \<Rightarrow> call_resume t c k
      | _ \<Rightarrow> Inr k)"

fun run :: "event list \<Rightarrow> kernel \<Rightarrow> fault + kernel" where
  "run [] k = Inr k"
| "run (e # es) k = (case step e k of Inl f \<Rightarrow> Inl f | Inr k' \<Rightarrow> run es k')"

definition boot :: "uint8_t list \<Rightarrow> size_t \<Rightarrow> kernel" where
  "boot storage sz = \<lparr>kpipe = z_impl_k_pipe_init storage sz, threads = (\<lambda>t. Idle), returns = []\<rparr>"

text \<open>
  The caller of write passes \<open>len\<close> readable bytes and the caller of read \<open>len\<close>
  writable bytes.
\<close>

definition wf_call :: "call \<Rightarrow> bool" where
  "wf_call c =
     (case c of
        Write dat len _ \<Rightarrow> unat len \<le> length dat
      | Read dst len _ \<Rightarrow> unat len \<le> length dst
      | _ \<Rightarrow> True)"

definition wf_event :: "event \<Rightarrow> bool" where
  "wf_event e = (case e of Call t c \<Rightarrow> wf_call c | _ \<Rightarrow> True)"

text \<open>The bytes accepted from writers and the bytes delivered to readers, in order.\<close>

definition accepted :: "ret \<Rightarrow> uint8_t list" where
  "accepted r =
     (case r of (t, Write dat len timeout, rc, out) \<Rightarrow> take (nat rc) dat | _ \<Rightarrow> [])"

definition delivered :: "ret \<Rightarrow> uint8_t list" where
  "delivered r =
     (case r of (t, Read dst len timeout, rc, out) \<Rightarrow> take (nat rc) out | _ \<Rightarrow> [])"

definition written :: "kernel \<Rightarrow> uint8_t list" where
  "written k = concat (map accepted (returns k))"

definition was_read :: "kernel \<Rightarrow> uint8_t list" where
  "was_read k = concat (map delivered (returns k))"

section \<open>Invariants\<close>

text \<open>The ring indices are inside the storage, and the full flag needs equal indices.\<close>

definition pipe_ok :: "k_pipe \<Rightarrow> bool" where
  "pipe_ok p \<longleftrightarrow>
     buffer_size p \<noteq> 0 \<and> length (buffer p) = unat (buffer_size p) \<and>
     head p < buffer_size p \<and> tail p < buffer_size p \<and>
     (PIPE_FLAG_FULL \<in> flags p \<longrightarrow> head p = tail p)"

text \<open>The bytes held by the ring, the oldest first.\<close>

definition contents :: "k_pipe \<Rightarrow> uint8_t list" where
  "contents p =
     (case utilization p of
        Inl f \<Rightarrow> []
      | Inr u \<Rightarrow> take (unat u) (rotate (unat (head p)) (buffer p)))"

text \<open>
  What the two \<^verbatim>\<open>memcpy\<close> calls of write leave in the storage: the bytes \<open>xs\<close> from
  index \<open>t\<close> on, the rest of them from index 0 on when they reach the end.
\<close>

definition ring_put :: "'a list \<Rightarrow> nat \<Rightarrow> 'a list \<Rightarrow> 'a list" where
  "ring_put buf t xs =
     (let fc = min (length buf - t) (length xs);
          buf1 = take t buf @ take fc xs @ drop (t + fc) buf
      in take (length xs - fc) (drop fc xs) @ drop (length xs - fc) buf1)"

text \<open>
  The invariant of the kernel state: the pipe is in order and every call in progress
  has the buffers it promised.
\<close>

definition kernel_ok :: "kernel \<Rightarrow> bool" where
  "kernel_ok k \<longleftrightarrow>
     pipe_ok (kpipe k) \<and>
     (\<forall>t c. threads k t = Pended c \<or> threads k t = Readied c \<longrightarrow> wf_call c)"

text \<open>
  A closed pipe has nobody on its wait queues and is not marked full.
\<close>

definition closed_ok :: "k_pipe \<Rightarrow> bool" where
  "closed_ok p \<longleftrightarrow>
     (PIPE_FLAG_OPEN \<notin> flags p \<longrightarrow> data p = [] \<and> space p = [] \<and> PIPE_FLAG_FULL \<notin> flags p)"

text \<open>
  The sums of two \<^verbatim>\<open>size_t\<close> values up to \<^verbatim>\<open>buffer_size\<close> do not wrap, and a count of
  bytes up to \<^verbatim>\<open>buffer_size\<close> fits the \<^verbatim>\<open>int\<close> that write and read return, when the
  capacity is below \<open>2 ^ 31\<close>.
\<close>

definition fits_int :: "k_pipe \<Rightarrow> bool" where
  "fits_int p \<longleftrightarrow> unat (buffer_size p) < 2 ^ 31"

text \<open>The events of a run in which threads only write and read.\<close>

definition io_event :: "event \<Rightarrow> bool" where
  "io_event e = (case e of Call t Reset \<Rightarrow> False | Call t Close \<Rightarrow> False | _ \<Rightarrow> True)"

text \<open>
  The handshake of reset: on an open pipe the reset flag is on only while a thread is
  counted in \<open>waiting\<close>.
\<close>

definition handshake_ok :: "k_pipe \<Rightarrow> bool" where
  "handshake_ok p \<longleftrightarrow>
     (PIPE_FLAG_OPEN \<in> flags p \<and> PIPE_FLAG_RESET \<in> flags p \<longrightarrow> waiting p \<noteq> 0)"

text \<open>
  On a closed pipe the reset flag is off.
\<close>

definition reset_off :: "k_pipe \<Rightarrow> bool" where
  "reset_off p \<longleftrightarrow> (PIPE_FLAG_OPEN \<notin> flags p \<longrightarrow> PIPE_FLAG_RESET \<notin> flags p)"


section \<open>Properties\<close>

lemmas pipe_defs = z_impl_k_pipe_init_def z_impl_k_pipe_reset_def z_impl_k_pipe_close_def
  z_impl_k_pipe_write_def z_impl_k_pipe_write_resume_def k_pipe_write_xfer_def
  z_impl_k_pipe_read_def z_impl_k_pipe_read_resume_def k_pipe_read_xfer_def
  wait_for_pend_def wait_for_wake_def notify_waiter_def z_unpend_all_def z_pend_curr_def
  waitq_get_def waitq_set_def k_spin_lock_def k_spin_unlock_def memcpy_def
  utilization_def queue_full_def queue_empty_def
  K_NO_WAIT_def K_FOREVER_def K_TIMEOUT_EQ_def EAGAIN_def EPIPE_def EALREADY_def ECANCELED_def

lemmas kernel_defs = boot_def call_enter_def call_resume_def finish_def z_ready_threads_def
  z_unpend_thread_def timeout_of_def

subsection \<open>Words as numbers\<close>

lemma unat_min: "unat (min a b) = min (unat a) (unat b)" for a b :: size_t
  by (simp add: min_def word_le_nat_alt)

lemma unat_sub_le: "b \<le> a \<Longrightarrow> unat (a - b) = unat a - unat b" for a b :: size_t
  by (simp add: unat_sub word_le_nat_alt)

subsection \<open>The transfers in closed form\<close>

lemma utilization_ok:
  assumes "pipe_ok p"
  shows "\<exists>u. utilization p = Inr u \<and> u \<le> buffer_size p \<and> (u = buffer_size p \<longleftrightarrow> PIPE_FLAG_FULL \<in> flags p)"
proof (cases "PIPE_FLAG_FULL \<in> flags p")
  case True
  then show ?thesis by (simp add: utilization_def)
next
  case False
  have "buffer_size p \<noteq> 0" using assms by (simp add: pipe_ok_def)
  then have "(tail p - head p + buffer_size p) mod buffer_size p < buffer_size p"
    by (simp add: word_mod_less_divisor word_neq_0_conv)
  with False \<open>buffer_size p \<noteq> 0\<close> show ?thesis
    by (auto simp: utilization_def)
qed

lemma notify_waiter_shape:
  "notify_waiter WQ_data p = (p\<lparr>data := tl (data p)\<rparr>, take 1 (data p))"
  "notify_waiter WQ_space p = (p\<lparr>space := tl (space p)\<rparr>, take 1 (space p))"
  by (cases "data p"; cases "space p"; simp add: notify_waiter_def waitq_get_def waitq_set_def)+

lemma write_xfer_shape:
  assumes ok: "pipe_ok p" and opn: "PIPE_FLAG_OPEN \<in> flags p"
    and len: "unat len \<le> length dat" and u: "utilization p = Inr u"
  defines "wl \<equiv> min (buffer_size p - u) len"
  shows "k_pipe_write_xfer p dat len =
     Inr (sint wl,
          p\<lparr>buffer := ring_put (buffer p) (unat (tail p)) (take (unat wl) dat),
            tail := (tail p + wl) mod buffer_size p,
            data := (if wl \<noteq> 0 then tl (data p) else data p),
            flags := (if wl \<noteq> 0 \<and> (tail p + wl) mod buffer_size p = head p
                      then insert PIPE_FLAG_FULL (flags p) else flags p),
            lock := False\<rparr>,
          if wl \<noteq> 0 then take 1 (data p) else [])"
proof -
  let ?sz = "buffer_size p"
  define fc where "fc = min (?sz - tail p) wl"
  define sc where "sc = wl - fc"
  define buf1 where "buf1 = take (unat (tail p)) (buffer p) @ take (unat fc) dat @ drop (unat (tail p) + unat fc) (buffer p)"
  from utilization_ok [OF ok] u have ule: "u \<le> ?sz" by auto
  have sz: "?sz \<noteq> 0" and lb: "length (buffer p) = unat ?sz" and tl: "tail p < ?sz"
    using ok by (simp_all add: pipe_ok_def)
  have tle: "tail p \<le> ?sz" using tl by simp
  have wl_len: "unat wl \<le> length dat" using len by (simp add: wl_def unat_min)
  have wl_sz: "unat wl \<le> unat ?sz" using ule by (simp add: wl_def unat_min unat_sub_le)
  have fc_le: "fc \<le> wl" by (simp add: fc_def)
  have fc_nat: "unat fc = min (unat ?sz - unat (tail p)) (unat wl)"
    using tle by (simp add: fc_def unat_min unat_sub_le)
  have sc_nat: "unat sc = unat wl - unat fc"
    unfolding sc_def using fc_le by (rule unat_sub_le)
  have tln: "unat (tail p) < unat ?sz" using tl by (simp add: word_less_nat_alt)
  have fc_b: "unat (tail p) + unat fc \<le> unat ?sz" and fc_w: "unat fc \<le> unat wl"
    using fc_nat tln by arith+
  have m1: "memcpy (buffer p) (unat (tail p)) dat 0 (unat fc) = Inr buf1"
    using lb fc_b fc_w wl_len by (simp add: memcpy_def buf1_def)
  have lb1: "length buf1 = unat ?sz"
    using lb fc_b fc_w wl_len by (simp add: buf1_def)
  have m2: "memcpy buf1 0 dat (unat fc) (unat sc) = Inr (take (unat sc) (drop (unat fc) dat) @ drop (unat sc) buf1)"
    using lb1 wl_sz wl_len sc_nat fc_w by (simp add: memcpy_def)
  have rp: "ring_put (buffer p) (unat (tail p)) (take (unat wl) dat)
            = take (unat sc) (drop (unat fc) dat) @ drop (unat sc) buf1"
    using lb wl_len sc_nat fc_nat
    by (simp add: ring_put_def Let_def buf1_def min_absorb2 take_drop)
  have sc0: "\<not> 0 < sc \<Longrightarrow> take (unat sc) (drop (unat fc) dat) @ drop (unat sc) buf1 = buf1"
    by (simp add: word_less_nat_alt)
  have m: "(if 0 < sc then memcpy buf1 0 dat (unat fc) (unat sc) else Inr buf1)
           = Inr (ring_put (buffer p) (unat (tail p)) (take (unat wl) dat))"
    using m2 sc0 rp by simp
  have opn': "(PIPE_FLAG_OPEN \<notin> flags p) = False" and sz': "(?sz = 0) = False"
    using opn sz by simp_all
  show ?thesis
    apply (simp only: k_pipe_write_xfer_def Let_def u sum.case wl_def[symmetric] fc_def[symmetric] sc_def[symmetric])
    apply (simp only: m1 m sum.case opn' sz' if_False)
    apply (simp add: notify_waiter_shape k_spin_unlock_def)
    done
qed

lemma read_xfer_shape:
  assumes ok: "pipe_ok p" and len: "unat len \<le> length dst" and u: "utilization p = Inr u"
    and ne: "\<not> (u = 0 \<and> PIPE_FLAG_OPEN \<notin> flags p)"
  defines "rl \<equiv> min len u"
  shows "k_pipe_read_xfer p dst len =
     Inr ((sint rl, take (unat rl) (rotate (unat (head p)) (buffer p)) @ drop (unat rl) dst),
          p\<lparr>head := (head p + rl) mod buffer_size p,
            flags := (if rl \<noteq> 0 then flags p - {PIPE_FLAG_FULL} else flags p),
            space := (if rl \<noteq> 0 then tl (space p) else space p),
            lock := False\<rparr>,
          if rl \<noteq> 0 then take 1 (space p) else [])"
proof -
  let ?sz = "buffer_size p"
  let ?h = "unat (head p)"
  define fc where "fc = min (?sz - head p) rl"
  define sc where "sc = rl - fc"
  define dst1 where "dst1 = take 0 dst @ take (unat fc) (drop ?h (buffer p)) @ drop (0 + unat fc) dst"
  from utilization_ok [OF ok] u have ule: "u \<le> ?sz" by auto
  have sz: "?sz \<noteq> 0" and lb: "length (buffer p) = unat ?sz" and hlt: "head p < ?sz"
    using ok by (simp_all add: pipe_ok_def)
  have hle: "head p \<le> ?sz" using hlt by simp
  have rl_len: "unat rl \<le> length dst" using len by (simp add: rl_def unat_min)
  have rl_sz: "unat rl \<le> unat ?sz" using ule by (simp add: rl_def unat_min word_le_nat_alt)
  have fc_le: "fc \<le> rl" by (simp add: fc_def)
  have fc_nat: "unat fc = min (unat ?sz - ?h) (unat rl)"
    using hle by (simp add: fc_def unat_min unat_sub_le)
  have sc_nat: "unat sc = unat rl - unat fc"
    unfolding sc_def using fc_le by (rule unat_sub_le)
  have hn: "?h < unat ?sz" using hlt by (simp add: word_less_nat_alt)
  have fc_b: "?h + unat fc \<le> unat ?sz" and fc_w: "unat fc \<le> unat rl"
    using fc_nat hn by arith+
  have m1: "memcpy dst 0 (buffer p) ?h (unat fc) = Inr dst1"
    using lb fc_b fc_w rl_len by (simp add: memcpy_def dst1_def)
  have ld1: "length dst1 = length dst"
    using lb fc_b fc_w rl_len by (simp add: dst1_def)
  have m2: "memcpy dst1 (unat fc) (buffer p) 0 (unat sc)
            = Inr (take (unat fc) dst1 @ take (unat sc) (drop 0 (buffer p)) @ drop (unat fc + unat sc) dst1)"
    using ld1 lb rl_sz rl_len sc_nat fc_w by (simp add: memcpy_def)
  have rot: "rotate ?h (buffer p) = drop ?h (buffer p) @ take ?h (buffer p)"
    using hn lb by (simp add: rotate_drop_take)
  have out: "(if 0 < sc then take (unat fc) dst1 @ take (unat sc) (drop 0 (buffer p)) @ drop (unat fc + unat sc) dst1
              else dst1)
             = take (unat rl) (rotate ?h (buffer p)) @ drop (unat rl) dst"
  proof (cases "unat rl \<le> unat ?sz - ?h")
    case True
    then have "unat fc = unat rl" using fc_nat by simp
    then have "unat sc = 0" using sc_nat by simp
    then have "\<not> 0 < sc" by (simp add: word_less_nat_alt)
    then show ?thesis
      using True lb \<open>unat fc = unat rl\<close> by (simp add: rot dst1_def)
  next
    case False
    then have fc: "unat fc = unat ?sz - ?h" using fc_nat by simp
    then have scp: "0 < unat sc" and sc: "unat sc = unat rl - (unat ?sz - ?h)"
      using sc_nat False by simp_all
    then have "0 < sc" by (simp add: word_less_nat_alt)
    moreover have "unat sc \<le> ?h" using sc rl_sz by arith
    ultimately show ?thesis
      using False lb fc sc hn rl_len rl_sz by (simp add: rot dst1_def)
  qed
  have m: "(if 0 < sc then memcpy dst1 (unat fc) (buffer p) 0 (unat sc) else Inr dst1)
           = Inr (take (unat rl) (rotate ?h (buffer p)) @ drop (unat rl) dst)"
    using m2 out by (simp split: if_splits)
  have ne': "(u = 0 \<and> PIPE_FLAG_OPEN \<notin> flags p) = False" and sz': "(?sz = 0) = False"
    using ne sz by simp_all
  show ?thesis
    apply (simp only: k_pipe_read_xfer_def Let_def u sum.case rl_def[symmetric] fc_def[symmetric] sc_def[symmetric])
    apply (simp only: m1 m sum.case ne' sz' if_False)
    apply (simp add: notify_waiter_shape k_spin_unlock_def)
    done
qed

subsection \<open>The indices stay inside the storage\<close>

lemma length_ring_put:
  assumes "t \<le> length buf" and "length xs \<le> length buf"
  shows "length (ring_put buf t xs) = length buf"
  using assms by (simp add: ring_put_def Let_def)

lemma pipe_ok_lock [simp]: "pipe_ok (p\<lparr>lock := b\<rparr>) = pipe_ok p"
  and pipe_ok_waiting [simp]: "pipe_ok (p\<lparr>waiting := w\<rparr>) = pipe_ok p"
  and pipe_ok_data [simp]: "pipe_ok (p\<lparr>data := q\<rparr>) = pipe_ok p"
  and pipe_ok_space [simp]: "pipe_ok (p\<lparr>space := q\<rparr>) = pipe_ok p"
  by (simp_all add: pipe_ok_def)

lemma full_write_len:
  assumes "pipe_ok p" and "utilization p = Inr u" and "PIPE_FLAG_FULL \<in> flags p"
  shows "min (buffer_size p - u) len = 0"
  using assms by (simp add: utilization_def)

lemma mod_size_lt: "sz \<noteq> 0 \<Longrightarrow> x mod sz < sz" for sz :: size_t
  by (simp add: word_mod_less_divisor word_neq_0_conv)

lemma mod_size_id: "x < sz \<Longrightarrow> x mod sz = x" for sz :: size_t
  by (simp add: mod_word_less)

lemma write_xfer_pipe_ok:
  assumes ok: "pipe_ok p" and len: "unat len \<le> length dat"
  shows "\<exists>rc p' w. k_pipe_write_xfer p dat len = Inr (rc, p', w) \<and> pipe_ok p' \<and>
           buffer_size p' = buffer_size p"
proof (cases "PIPE_FLAG_OPEN \<in> flags p")
  case False
  then show ?thesis using ok by (simp add: k_pipe_write_xfer_def k_spin_unlock_def)
next
  case True
  from utilization_ok [OF ok] obtain u where u: "utilization p = Inr u" and ule: "u \<le> buffer_size p"
    and full: "u = buffer_size p \<longleftrightarrow> PIPE_FLAG_FULL \<in> flags p" by blast
  define wl where "wl = min (buffer_size p - u) len"
  have sz: "buffer_size p \<noteq> 0" and lb: "length (buffer p) = unat (buffer_size p)"
    and tl: "tail p < buffer_size p" and hd: "head p < buffer_size p"
    and fl: "PIPE_FLAG_FULL \<in> flags p \<longrightarrow> head p = tail p"
    using ok by (simp_all add: pipe_ok_def)
  have wl_sz: "unat wl \<le> unat (buffer_size p)"
    using ule by (simp add: wl_def unat_min unat_sub_le)
  have "length (ring_put (buffer p) (unat (tail p)) (take (unat wl) dat)) = length (buffer p)"
    using lb tl wl_sz by (intro length_ring_put) (simp_all add: word_less_nat_alt)
  moreover have "PIPE_FLAG_FULL \<in> flags p \<Longrightarrow> wl = 0"
    using full by (simp add: wl_def)
  ultimately show ?thesis
    using write_xfer_shape [OF ok True len u] sz lb tl hd fl
    by (auto simp: wl_def[symmetric] pipe_ok_def mod_size_lt mod_size_id)
qed

lemma read_xfer_pipe_ok:
  assumes ok: "pipe_ok p" and len: "unat len \<le> length dst"
  shows "\<exists>r p' w. k_pipe_read_xfer p dst len = Inr (r, p', w) \<and> pipe_ok p' \<and>
           buffer_size p' = buffer_size p"
proof -
  from utilization_ok [OF ok] obtain u where u: "utilization p = Inr u" and ule: "u \<le> buffer_size p"
    and full: "u = buffer_size p \<longleftrightarrow> PIPE_FLAG_FULL \<in> flags p" by blast
  show ?thesis
  proof (cases "u = 0 \<and> PIPE_FLAG_OPEN \<notin> flags p")
    case True
    then show ?thesis using ok u by (simp add: k_pipe_read_xfer_def k_spin_unlock_def)
  next
    case False
    have sz: "buffer_size p \<noteq> 0" and lb: "length (buffer p) = unat (buffer_size p)"
      and tl: "tail p < buffer_size p" and hd: "head p < buffer_size p"
      and fl: "PIPE_FLAG_FULL \<in> flags p \<longrightarrow> head p = tail p"
      using ok by (simp_all add: pipe_ok_def)
    show ?thesis
      using read_xfer_shape [OF ok len u False] sz lb tl hd fl
      by (auto simp: pipe_ok_def mod_size_lt mod_size_id)
  qed
qed

lemma utilization_lock [simp]: "utilization (p\<lparr>lock := b\<rparr>) = utilization p"
  and utilization_waiting [simp]: "utilization (p\<lparr>waiting := w\<rparr>) = utilization p"
  and utilization_data [simp]: "utilization (p\<lparr>data := q\<rparr>) = utilization p"
  and utilization_space [simp]: "utilization (p\<lparr>space := q\<rparr>) = utilization p"
  by (simp_all add: utilization_def)

lemma wait_for_pend_pipe_ok:
  assumes "wait_for_pend wq p timeout t = (r, p')" and "pipe_ok p"
  shows "pipe_ok p' \<and> buffer_size p' = buffer_size p"
  using assms
  by (auto simp: wait_for_pend_def z_pend_curr_def k_spin_unlock_def waitq_set_def waitq_get_def
      split: if_splits waitq.splits)

lemma write_pipe_ok:
  assumes ok: "pipe_ok p" and len: "unat len \<le> length dat"
  shows "\<exists>r p' w. z_impl_k_pipe_write p dat len timeout t = Inr (r, p', w) \<and> pipe_ok p' \<and>
           buffer_size p' = buffer_size p"
proof -
  let ?p = "k_spin_lock p"
  have ok': "pipe_ok ?p" and bs: "buffer_size ?p = buffer_size p"
    using ok by (simp_all add: k_spin_lock_def)
  from utilization_ok [OF ok'] obtain u where u: "utilization ?p = Inr u" by blast
  from write_xfer_pipe_ok [OF ok' len] obtain rc p' w
    where x: "k_pipe_write_xfer ?p dat len = Inr (rc, p', w)" "pipe_ok p'" "buffer_size p' = buffer_size p"
    using bs by auto
  obtain r q where w: "wait_for_pend WQ_space ?p timeout t = (r, q)" by force
  from wait_for_pend_pipe_ok [OF w ok'] have q: "pipe_ok q" "buffer_size q = buffer_size p"
    using bs by simp_all
  have rnz: "r = Some rc' \<Longrightarrow> rc' \<noteq> 0" for rc'
    using w by (auto simp: wait_for_pend_def EAGAIN_def split: if_splits)
  show ?thesis
    using u x w q rnz
    by (cases r) (auto simp: z_impl_k_pipe_write_def Let_def queue_full_def k_spin_unlock_def)
qed

lemma read_pipe_ok:
  assumes ok: "pipe_ok p" and len: "unat len \<le> length dst"
  shows "\<exists>r p' w. z_impl_k_pipe_read p dst len timeout t = Inr (r, p', w) \<and> pipe_ok p' \<and>
           buffer_size p' = buffer_size p"
proof -
  let ?p = "k_spin_lock p"
  have ok': "pipe_ok ?p" and bs: "buffer_size ?p = buffer_size p"
    using ok by (simp_all add: k_spin_lock_def)
  from utilization_ok [OF ok'] obtain u where u: "utilization ?p = Inr u" by blast
  from read_xfer_pipe_ok [OF ok' len] obtain rc p' w
    where x: "k_pipe_read_xfer ?p dst len = Inr (rc, p', w)" "pipe_ok p'" "buffer_size p' = buffer_size p"
    using bs by auto
  obtain r q where w: "wait_for_pend WQ_data ?p timeout t = (r, q)" by force
  from wait_for_pend_pipe_ok [OF w ok'] have q: "pipe_ok q" "buffer_size q = buffer_size p"
    using bs by simp_all
  have rnz: "r = Some rc' \<Longrightarrow> rc' \<noteq> 0 \<and> rc' \<noteq> - EPIPE" for rc'
    using w by (auto simp: wait_for_pend_def EAGAIN_def EPIPE_def split: if_splits)
  show ?thesis
    using u x w q rnz
    by (cases r) (auto simp: z_impl_k_pipe_read_def Let_def k_spin_unlock_def)
qed

lemma wait_for_wake_pipe_ok:
  assumes ok: "pipe_ok p" and c: "cond = queue_full \<or> cond = queue_empty"
  shows "\<exists>rc p'. wait_for_wake p cond = Inr (rc, p') \<and> pipe_ok p' \<and> buffer_size p' = buffer_size p"
proof -
  let ?p = "p\<lparr>lock := True, waiting := waiting p - 1\<rparr>"
  have ok': "pipe_ok ?p" using ok by simp
  from utilization_ok [OF ok'] obtain u where u: "utilization ?p = Inr u" by blast
  then have "\<exists>b. cond ?p = Inr b" using c by (auto simp: queue_full_def queue_empty_def)
  then obtain b where b: "cond ?p = Inr b" by blast
  show ?thesis
    using ok b by (auto simp: wait_for_wake_def Let_def k_spin_lock_def pipe_ok_def)
qed

lemma write_resume_pipe_ok:
  assumes ok: "pipe_ok p" and len: "unat len \<le> length dat"
  shows "\<exists>rc p' w. z_impl_k_pipe_write_resume p dat len = Inr (rc, p', w) \<and> pipe_ok p' \<and>
           buffer_size p' = buffer_size p"
proof -
  from wait_for_wake_pipe_ok [OF ok, of queue_full] obtain rc q
    where w: "wait_for_wake p queue_full = Inr (rc, q)" "pipe_ok q" "buffer_size q = buffer_size p"
    by auto
  from write_xfer_pipe_ok [OF w(2) len] w(3) obtain rc' p' ws
    where x: "k_pipe_write_xfer q dat len = Inr (rc', p', ws)" "pipe_ok p'" "buffer_size p' = buffer_size p"
    by auto
  show ?thesis using w x by (auto simp: z_impl_k_pipe_write_resume_def k_spin_unlock_def)
qed

lemma read_resume_pipe_ok:
  assumes ok: "pipe_ok p" and len: "unat len \<le> length dst"
  shows "\<exists>r p' w. z_impl_k_pipe_read_resume p dst len = Inr (r, p', w) \<and> pipe_ok p' \<and>
           buffer_size p' = buffer_size p"
proof -
  from wait_for_wake_pipe_ok [OF ok, of queue_empty] obtain rc q
    where w: "wait_for_wake p queue_empty = Inr (rc, q)" "pipe_ok q" "buffer_size q = buffer_size p"
    by auto
  from read_xfer_pipe_ok [OF w(2) len] w(3) obtain r' p' ws
    where x: "k_pipe_read_xfer q dst len = Inr (r', p', ws)" "pipe_ok p'" "buffer_size p' = buffer_size p"
    by auto
  show ?thesis using w x by (auto simp: z_impl_k_pipe_read_resume_def k_spin_unlock_def)
qed

lemma reset_pipe_ok:
  assumes "pipe_ok p"
  shows "\<exists>rc p' w. z_impl_k_pipe_reset p = (rc, p', w) \<and> pipe_ok p' \<and> buffer_size p' = buffer_size p"
  using assms
  by (auto simp: z_impl_k_pipe_reset_def Let_def z_unpend_all_def waitq_set_def waitq_get_def
      k_spin_lock_def k_spin_unlock_def pipe_ok_def word_neq_0_conv)

lemma close_pipe_ok:
  assumes "pipe_ok p"
  shows "\<exists>rc p' w. z_impl_k_pipe_close p = (rc, p', w) \<and> pipe_ok p' \<and> buffer_size p' = buffer_size p"
  using assms
  by (auto simp: z_impl_k_pipe_close_def Let_def z_unpend_all_def waitq_set_def waitq_get_def
      k_spin_lock_def k_spin_unlock_def pipe_ok_def)

lemma finish_kernel_ok:
  assumes "kernel_ok k" and "wf_call c" and "pipe_ok p"
  shows "kernel_ok (finish t c r p w k)" and "kpipe (finish t c r p w k) = p"
  using assms
  by (auto simp: kernel_ok_def finish_def z_ready_threads_def split: option.splits thread.splits if_splits)

lemma call_enter_kernel_ok:
  assumes ok: "kernel_ok k" and wf: "wf_call c"
  shows "\<exists>k'. call_enter t c k = Inr k' \<and> kernel_ok k' \<and>
           buffer_size (kpipe k') = buffer_size (kpipe k)"
proof -
  have pk: "pipe_ok (kpipe k)" using ok by (simp add: kernel_ok_def)
  show ?thesis
  proof (cases c)
    case (Write dat len timeout)
    then have "unat len \<le> length dat" using wf by (simp add: wf_call_def)
    from write_pipe_ok [OF pk this, of timeout t] show ?thesis
      using Write finish_kernel_ok [OF ok wf] by (auto simp: call_enter_def)
  next
    case (Read dst len timeout)
    then have "unat len \<le> length dst" using wf by (simp add: wf_call_def)
    from read_pipe_ok [OF pk this, of timeout t] show ?thesis
      using Read finish_kernel_ok [OF ok wf] by (auto simp: call_enter_def)
  next
    case Reset
    from reset_pipe_ok [OF pk] show ?thesis
      using Reset finish_kernel_ok [OF ok wf] by (auto simp: call_enter_def)
  next
    case Close
    from close_pipe_ok [OF pk] show ?thesis
      using Close finish_kernel_ok [OF ok wf] by (auto simp: call_enter_def)
  qed
qed

lemma call_resume_kernel_ok:
  assumes ok: "kernel_ok k" and wf: "wf_call c"
  shows "\<exists>k'. call_resume t c k = Inr k' \<and> kernel_ok k' \<and>
           buffer_size (kpipe k') = buffer_size (kpipe k)"
proof -
  have pk: "pipe_ok (kpipe k)" using ok by (simp add: kernel_ok_def)
  show ?thesis
  proof (cases c)
    case (Write dat len timeout)
    then have "unat len \<le> length dat" using wf by (simp add: wf_call_def)
    from write_resume_pipe_ok [OF pk this] show ?thesis
      using Write finish_kernel_ok [OF ok wf] by (auto simp: call_resume_def)
  next
    case (Read dst len timeout)
    then have "unat len \<le> length dst" using wf by (simp add: wf_call_def)
    from read_resume_pipe_ok [OF pk this] show ?thesis
      using Read finish_kernel_ok [OF ok wf] by (auto simp: call_resume_def)
  next
    case Reset
    then show ?thesis using ok by (simp add: call_resume_def)
  next
    case Close
    then show ?thesis using ok by (simp add: call_resume_def)
  qed
qed

lemma step_kernel_ok:
  assumes ok: "kernel_ok k" and wf: "wf_event e"
  shows "\<exists>k'. step e k = Inr k' \<and> kernel_ok k' \<and>
           buffer_size (kpipe k') = buffer_size (kpipe k)"
proof (cases e)
  case (Call t c)
  then have "wf_call c" using wf by (simp add: wf_event_def)
  from call_enter_kernel_ok [OF ok this, of t] show ?thesis
    using Call ok by auto
next
  case (Timeout t)
  then show ?thesis
    using ok
    by (auto simp: kernel_ok_def z_unpend_thread_def split: thread.splits)
next
  case (Resume t)
  show ?thesis
  proof (cases "threads k t")
    case (Readied c)
    then have "wf_call c" using ok by (auto simp: kernel_ok_def)
    from call_resume_kernel_ok [OF ok this, of t] show ?thesis
      using Resume Readied by simp
  qed (use Resume ok in simp_all)
qed

lemma run_kernel_ok:
  assumes "kernel_ok k" and "\<forall>e\<in>set evs. wf_event e"
  shows "\<exists>k'. run evs k = Inr k' \<and> kernel_ok k' \<and>
           buffer_size (kpipe k') = buffer_size (kpipe k)"
  using assms
proof (induction evs arbitrary: k)
  case Nil
  then show ?case by simp
next
  case (Cons e evs)
  from step_kernel_ok [of k e] Cons.prems obtain k1
    where s: "step e k = Inr k1" "kernel_ok k1" "buffer_size (kpipe k1) = buffer_size (kpipe k)"
    by auto
  from Cons.IH [OF s(2)] Cons.prems(2) s show ?case by auto
qed

lemma boot_kernel_ok:
  assumes "sz \<noteq> 0" and "length storage = unat sz"
  shows "kernel_ok (boot storage sz)" and "buffer_size (kpipe (boot storage sz)) = sz"
  using assms
  by (simp_all add: kernel_ok_def boot_def z_impl_k_pipe_init_def pipe_ok_def word_neq_0_conv)

subsection \<open>The closed pipe\<close>

lemma map_Some_Inr:
  "map_sum id (map_prod Some id) x = Inr (r, y) \<longleftrightarrow> (\<exists>rc. x = Inr (rc, y) \<and> r = Some rc)"
  by (cases x) auto





lemma closed_ok_lock [simp]: "closed_ok (p\<lparr>lock := b\<rparr>) = closed_ok p"
  by (simp add: closed_ok_def)







lemma kpipe_finish [simp]: "kpipe (finish t c r p w k) = p"
  by (simp add: finish_def split: option.splits)



subsection \<open>Calls that move no byte\<close>

lemma ring_put_Nil: "t \<le> length buf \<Longrightarrow> ring_put buf t [] = buf"
  by (simp add: ring_put_def)

lemma queue_full_lock [simp]: "queue_full (p\<lparr>lock := b\<rparr>) = queue_full p"
  and queue_empty_lock [simp]: "queue_empty (p\<lparr>lock := b\<rparr>) = queue_empty p"
  by (simp_all add: queue_full_def queue_empty_def split: sum.splits)

subsection \<open>The ring as a list\<close>

lemma rotate_le: "n \<le> length xs \<Longrightarrow> rotate n xs = drop n xs @ take n xs"
  by (cases "n = length xs") (simp_all add: rotate_drop_take)

lemma rotate_mod_length: "rotate (n mod length xs) xs = rotate n xs"
  by (simp add: rotate_drop_take)

lemma ring_put_rotate:
  assumes t: "t < length buf" and n: "length xs \<le> length buf"
  shows "rotate t (ring_put buf t xs) = xs @ drop (length xs) (rotate t buf)"
proof (cases "length xs \<le> length buf - t")
  case True
  then have "ring_put buf t xs = take t buf @ xs @ drop (t + length xs) buf"
    by (simp add: ring_put_def Let_def min_absorb2)
  moreover have "length (take t buf @ xs @ drop (t + length xs) buf) = length buf"
    using t True by simp
  ultimately show ?thesis
    using t True by (simp add: rotate_le add.commute)
next
  case False
  define fc where "fc = length buf - t"
  define sc where "sc = length xs - fc"
  have fc: "fc < length xs" "fc \<le> length buf" "t + fc = length buf"
    and sc: "sc \<le> t" "fc + sc = length xs"
    using False t n by (simp_all add: fc_def sc_def)
  have rp: "ring_put buf t xs = drop fc xs @ drop sc (take t buf) @ take fc xs"
    using False t n fc sc
    by (simp add: ring_put_def Let_def min_absorb1 fc_def[symmetric] sc_def[symmetric])
  have len: "length (ring_put buf t xs) = length buf"
    using t n by (simp add: length_ring_put)
  have "rotate t (ring_put buf t xs) = drop t (ring_put buf t xs) @ take t (ring_put buf t xs)"
    using t len by (simp add: rotate_le)
  also have "\<dots> = take fc xs @ drop fc xs @ drop sc (take t buf)"
    using t n fc sc by (simp add: rp)
  also have "\<dots> = xs @ drop sc (take t buf)" by simp
  also have "\<dots> = xs @ drop (length xs) (rotate t buf)"
    using t n fc sc by (simp add: rotate_le fc_def sc_def)
  finally show ?thesis .
qed

lemma ring_put_view:
  assumes h: "h < length buf" and un: "u + length xs \<le> length buf"
  shows "rotate h (ring_put buf ((h + u) mod length buf) xs)
         = take u (rotate h buf) @ xs @ drop (u + length xs) (rotate h buf)"
proof -
  define N where "N = length buf"
  define t where "t = (h + u) mod N"
  define Y where "Y = rotate h buf"
  define B where "B = ring_put buf t xs"
  have N: "0 < N" using h by (cases buf) (simp_all add: N_def)
  have t: "t < length buf" using N by (simp add: t_def N_def)
  have n: "length xs \<le> length buf" using un by simp
  have len: "length B = N" using t n by (simp add: B_def N_def length_ring_put)
  have lenY: "length Y = N" by (simp add: Y_def N_def)
  have uN: "u \<le> N" using un by (simp add: N_def)
  have "rotate t buf = rotate (h + u) buf"
    unfolding t_def N_def by (rule rotate_mod_length)
  also have "\<dots> = rotate u Y"
    by (simp add: Y_def rotate_rotate add.commute)
  also have "\<dots> = drop u Y @ take u Y"
    using uN lenY by (intro rotate_le) simp
  finally have rt: "rotate t buf = drop u Y @ take u Y" .
  have "rotate t B = xs @ drop (length xs) (rotate t buf)"
    unfolding B_def using ring_put_rotate [OF t n] .
  also have "\<dots> = xs @ drop (u + length xs) Y @ take u Y"
    using un lenY by (simp add: rt add.commute N_def)
  finally have v: "rotate t B = xs @ drop (u + length xs) Y @ take u Y" .
  have "rotate t B = rotate (h + u) B"
    unfolding t_def using len rotate_mod_length [of "h + u" B] by simp
  also have "\<dots> = rotate u (rotate h B)"
    by (simp add: rotate_rotate add.commute)
  finally have "rotate (N - u) (rotate t B) = rotate N (rotate h B)"
    using uN by (simp add: rotate_rotate)
  also have "\<dots> = rotate h B"
    using len rotate_mod_length [of N "rotate h B"] by simp
  finally have "rotate h B = rotate (N - u) (xs @ drop (u + length xs) Y @ take u Y)"
    using v by simp
  also have "\<dots> = drop (N - u) (xs @ drop (u + length xs) Y @ take u Y)
                  @ take (N - u) (xs @ drop (u + length xs) Y @ take u Y)"
    using un lenY by (intro rotate_le) (simp add: N_def)
  also have "\<dots> = take u Y @ xs @ drop (u + length xs) Y"
    using un lenY by (simp add: N_def)
  finally show ?thesis by (simp add: B_def t_def N_def Y_def)
qed

subsection \<open>Sizes that do not wrap\<close>

lemma sint_small: 
  assumes "unat x < 2^31" shows "sint (x :: 32 word) = int (unat x)"
proof -
  have "int (unat x) < int (2 ^ 31)" using assms by (simp only: of_nat_less_iff)
  then have "uint x < 2 ^ 31" by simp
  moreover have "0 \<le> uint x" by simp
  then have "- (2 ^ 31) \<le> uint x" by (rule order_trans [rotated]) simp
  ultimately have "signed_take_bit 31 (uint x) = uint x"
    by (simp add: signed_take_bit_int_eq_self)
  then show ?thesis by (simp add: sint_uint)
qed

lemma util_bridge:
  fixes hd tl sz :: size_t
  assumes "hd < sz" "tl < sz" "unat sz < 2 ^ 31"
  shows "unat ((tl - hd + sz) mod sz) = (unat tl + (unat sz - unat hd)) mod unat sz"
proof -
  have e: "tl - hd + sz = tl + (sz - hd)" by simp
  have s: "unat (sz - hd) = unat sz - unat hd"
    using assms(1) by (simp add: unat_sub_le)
  have "unat tl + unat (sz - hd) < 2 ^ 32"
    using assms by (simp add: s word_less_nat_alt)
  then have "unat (tl + (sz - hd)) = unat tl + unat (sz - hd)"
    by (simp add: unat_add_lem [THEN iffD1])
  then show ?thesis by (simp add: e s unat_mod)
qed

lemma add_bridge:
  fixes x y sz :: size_t
  assumes "x < sz" "y \<le> sz" "unat sz < 2 ^ 31"
  shows "unat ((x + y) mod sz) = (unat x + unat y) mod unat sz"
proof -
  have "unat x + unat y < 2 ^ 32"
    using assms by (simp add: word_less_nat_alt word_le_nat_alt)
  then have "unat (x + y) = unat x + unat y"
    by (simp add: unat_add_lem [THEN iffD1])
  then show ?thesis by (simp add: unat_mod)
qed

subsection \<open>The bytes in the ring\<close>

lemma mod_lt_twice:
  fixes x N :: nat
  assumes "x < 2 * N"
  shows "x mod N = (if x < N then x else x - N)"
proof (cases "x < N")
  case True
  then show ?thesis by simp
next
  case False
  then have "x = (x - N) + N" by simp
  then have "x mod N = (x - N) mod N" by (metis mod_add_self2)
  also have "\<dots> = x - N" using assms False by simp
  finally show ?thesis using False by simp
qed

lemma ring_back_to_head:
  fixes h s N :: nat
  assumes "h < N" and "s \<le> N"
  shows "(h + s) mod N = h \<longleftrightarrow> s = 0 \<or> s = N"
  using assms by (simp add: mod_lt_twice) arith

lemma ring_distance:
  fixes h s N :: nat
  assumes "h < N" and "s < N"
  shows "((h + s) mod N + (N - h)) mod N = s"
  using assms by (simp add: mod_lt_twice)

lemma ring_distance_read:
  fixes h r un N :: nat
  assumes "h < N" and "r \<le> un" and "un \<le> N" and "0 < r"
  shows "((h + un) mod N + (N - (h + r) mod N)) mod N = un - r"
  using assms by (simp add: mod_lt_twice)

lemma util_tail:
  assumes ok: "pipe_ok p" and sm: "fits_int p" and u: "utilization p = Inr u"
  shows "unat (tail p) = (unat (head p) + unat u) mod unat (buffer_size p)"
    and "unat u \<le> unat (buffer_size p)"
proof -
  let ?N = "unat (buffer_size p)"
  have sz: "buffer_size p \<noteq> 0" and tl: "tail p < buffer_size p" and hd: "head p < buffer_size p"
    and fl: "PIPE_FLAG_FULL \<in> flags p \<longrightarrow> head p = tail p"
    using ok by (simp_all add: pipe_ok_def)
  have hn: "unat (head p) < ?N" and tn: "unat (tail p) < ?N"
    using hd tl by (simp_all add: word_less_nat_alt)
  have N31: "?N < 2 ^ 31" using sm by (simp add: fits_int_def)
  from utilization_ok [OF ok] u show "unat u \<le> ?N" by (auto simp: word_le_nat_alt)
  show "unat (tail p) = (unat (head p) + unat u) mod ?N"
  proof (cases "PIPE_FLAG_FULL \<in> flags p")
    case True
    then have "u = buffer_size p" using u by (simp add: utilization_def)
    then show ?thesis using True fl hn by simp
  next
    case False
    then have "u = (tail p - head p + buffer_size p) mod buffer_size p"
      using u sz by (simp add: utilization_def)
    then have "unat u = (unat (tail p) + (?N - unat (head p))) mod ?N"
      using util_bridge [OF hd tl N31] by simp
    then have "(unat (head p) + unat u) mod ?N
               = (unat (head p) + (unat (tail p) + (?N - unat (head p)))) mod ?N"
      by (simp add: mod_add_right_eq)
    also have "\<dots> = (unat (tail p) + ?N) mod ?N"
      using hn by (simp add: algebra_simps)
    also have "\<dots> = unat (tail p)" using tn by simp
    finally show ?thesis by simp
  qed
qed

lemma write_xfer_contents:
  assumes ok: "pipe_ok p" and sm: "fits_int p" and opn: "PIPE_FLAG_OPEN \<in> flags p"
    and len: "unat len \<le> length dat" and u: "utilization p = Inr u"
    and x: "k_pipe_write_xfer p dat len = Inr (rc, p', w)"
  defines "wl \<equiv> min (buffer_size p - u) len"
  shows "rc = int (unat wl)"
    and "utilization p' = Inr (u + wl)"
    and "contents p' = contents p @ take (unat wl) dat"
proof -
  let ?N = "unat (buffer_size p)"
  let ?h = "unat (head p)"
  let ?t = "unat (tail p)"
  let ?X = "take (unat wl) dat"
  have sz: "buffer_size p \<noteq> 0" and lb: "length (buffer p) = ?N"
    and tl: "tail p < buffer_size p" and hd: "head p < buffer_size p"
    and fl: "PIPE_FLAG_FULL \<in> flags p \<longrightarrow> head p = tail p"
    using ok by (simp_all add: pipe_ok_def)
  have hn: "?h < ?N" and tn: "?t < ?N"
    using hd tl by (simp_all add: word_less_nat_alt)
  have N31: "?N < 2 ^ 31" using sm by (simp add: fits_int_def)
  from utilization_ok [OF ok] u have ule: "u \<le> buffer_size p"
    and full: "u = buffer_size p \<longleftrightarrow> PIPE_FLAG_FULL \<in> flags p" by auto
  have un: "unat u \<le> ?N" using ule by (simp add: word_le_nat_alt)
  have wl_le: "unat wl \<le> ?N - unat u"
    using ule by (simp add: wl_def unat_min unat_sub_le)
  have wl_sz: "wl \<le> buffer_size p"
    using wl_le un by (simp add: word_le_nat_alt)
  have wl_len: "unat wl \<le> length dat" using len by (simp add: wl_def unat_min)
  have lX: "length ?X = unat wl" using wl_len by simp
  have sum: "unat (u + wl) = unat u + unat wl"
  proof -
    have "unat u + unat wl < 2 ^ 32" using wl_le un N31 by simp
    then show ?thesis by (simp add: unat_add_lem [THEN iffD1])
  qed
  have t_eq: "?t = (?h + unat u) mod ?N" using util_tail(1) [OF ok sm u] .
  define tail' where "tail' = (tail p + wl) mod buffer_size p"
  have t'lt: "tail' < buffer_size p" using sz by (simp add: tail'_def mod_size_lt)
  have t': "unat tail' = (?h + (unat u + unat wl)) mod ?N"
  proof -
    have "unat tail' = (?t + unat wl) mod ?N"
      unfolding tail'_def using add_bridge [OF tl wl_sz N31] .
    also have "\<dots> = (?h + unat u + unat wl) mod ?N"
      by (simp add: t_eq mod_add_left_eq)
    finally show ?thesis by (simp add: add.assoc)
  qed
  have wrapped: "tail' = head p \<longleftrightarrow> unat u + unat wl = 0 \<or> unat u + unat wl = ?N"
  proof -
    have "tail' = head p \<longleftrightarrow> unat tail' = ?h" by (simp add: word_unat_eq_iff)
    also have "\<dots> \<longleftrightarrow> unat u + unat wl = 0 \<or> unat u + unat wl = ?N"
      unfolding t' using wl_le un by (intro ring_back_to_head [OF hn]) simp
    finally show ?thesis .
  qed
  from write_xfer_shape [OF ok opn len u] x
  have rc: "rc = sint wl"
    and p': "p' = p\<lparr>buffer := ring_put (buffer p) ?t ?X,
                     tail := tail',
                     data := (if wl \<noteq> 0 then tl (data p) else data p),
                     flags := (if wl \<noteq> 0 \<and> tail' = head p
                               then insert PIPE_FLAG_FULL (flags p) else flags p),
                     lock := False\<rparr>"
    by (simp_all add: wl_def tail'_def)
  have "unat wl < 2 ^ 31" using wl_le N31 by simp
  then show "rc = int (unat wl)" by (simp add: rc sint_small)
  show util': "utilization p' = Inr (u + wl)"
  proof (cases "PIPE_FLAG_FULL \<in> flags p'")
    case True
    have "unat u + unat wl = ?N"
    proof (cases "PIPE_FLAG_FULL \<in> flags p")
      case True
      then have "unat u = ?N" using full by simp
      then show ?thesis using wl_le by simp
    next
      case False
      then have "wl \<noteq> 0 \<and> tail' = head p" using True by (simp add: p' split: if_splits)
      then show ?thesis using wrapped by (auto simp: unat_eq_0)
    qed
    then have "u + wl = buffer_size p" by (simp add: word_unat_eq_iff sum)
    then show ?thesis using True by (simp add: utilization_def p')
  next
    case False
    then have nf: "PIPE_FLAG_FULL \<notin> flags p" and nb: "\<not> (wl \<noteq> 0 \<and> tail' = head p)"
      by (auto simp: p' split: if_splits)
    have "unat u \<noteq> ?N" using nf full by (simp add: word_unat_eq_iff)
    then have lt: "unat u + unat wl < ?N"
      using nb wrapped wl_le un by (cases "wl = 0") (auto simp: unat_eq_0)
    have "unat ((tail' - head p + buffer_size p) mod buffer_size p)
          = (unat tail' + (?N - ?h)) mod ?N"
      using util_bridge [OF hd t'lt N31] .
    also have "\<dots> = unat u + unat wl"
      unfolding t' using ring_distance [OF hn lt] .
    finally have "(tail' - head p + buffer_size p) mod buffer_size p = u + wl"
      by (simp add: word_unat_eq_iff sum)
    then show ?thesis using False sz by (simp add: utilization_def p')
  qed
  have "contents p' = take (unat u + unat wl) (rotate ?h (ring_put (buffer p) ?t ?X))"
    using util' by (simp add: contents_def sum p')
  also have "\<dots> = take (unat u + unat wl)
                   (take (unat u) (rotate ?h (buffer p)) @ ?X
                      @ drop (unat u + length ?X) (rotate ?h (buffer p)))"
    using ring_put_view [of ?h "buffer p" "unat u" ?X] hn wl_le un lb lX
    by (simp add: t_eq)
  also have "\<dots> = take (unat u) (rotate ?h (buffer p)) @ ?X"
    using un lb lX by simp
  finally show "contents p' = contents p @ take (unat wl) dat"
    by (simp add: contents_def u)
qed

lemma read_xfer_contents:
  assumes ok: "pipe_ok p" and sm: "fits_int p"
    and len: "unat len \<le> length dst" and u: "utilization p = Inr u"
    and ne: "\<not> (u = 0 \<and> PIPE_FLAG_OPEN \<notin> flags p)"
    and x: "k_pipe_read_xfer p dst len = Inr ((rc, dst'), p', w)"
  defines "rl \<equiv> min len u"
  shows "rc = int (unat rl)"
    and "utilization p' = Inr (u - rl)"
    and "take (unat rl) dst' = take (unat rl) (contents p)"
    and "contents p' = drop (unat rl) (contents p)"
    and "length dst' = length dst"
proof -
  let ?N = "unat (buffer_size p)"
  let ?h = "unat (head p)"
  let ?t = "unat (tail p)"
  let ?Y = "rotate ?h (buffer p)"
  have sz: "buffer_size p \<noteq> 0" and lb: "length (buffer p) = ?N"
    and tl: "tail p < buffer_size p" and hd: "head p < buffer_size p"
    and fl: "PIPE_FLAG_FULL \<in> flags p \<longrightarrow> head p = tail p"
    using ok by (simp_all add: pipe_ok_def)
  have hn: "?h < ?N" and tn: "?t < ?N"
    using hd tl by (simp_all add: word_less_nat_alt)
  have N31: "?N < 2 ^ 31" using sm by (simp add: fits_int_def)
  from utilization_ok [OF ok] u have ule: "u \<le> buffer_size p" by auto
  have un: "unat u \<le> ?N" using ule by (simp add: word_le_nat_alt)
  have rl_u: "rl \<le> u" by (simp add: rl_def)
  have rl_le: "unat rl \<le> unat u" using rl_u by (simp add: word_le_nat_alt)
  have rl_sz: "rl \<le> buffer_size p" using rl_u ule by simp
  have rl_len: "unat rl \<le> length dst" using len by (simp add: rl_def unat_min)
  have diff: "unat (u - rl) = unat u - unat rl" using rl_u by (rule unat_sub_le)
  have t_eq: "?t = (?h + unat u) mod ?N" using util_tail(1) [OF ok sm u] .
  define head' where "head' = (head p + rl) mod buffer_size p"
  have h'lt: "head' < buffer_size p" using sz by (simp add: head'_def mod_size_lt)
  have h': "unat head' = (?h + unat rl) mod ?N"
    unfolding head'_def using add_bridge [OF hd rl_sz N31] .
  from read_xfer_shape [OF ok len u ne] x
  have rc: "rc = sint rl"
    and dst': "dst' = take (unat rl) ?Y @ drop (unat rl) dst"
    and p': "p' = p\<lparr>head := head',
                     flags := (if rl \<noteq> 0 then flags p - {PIPE_FLAG_FULL} else flags p),
                     space := (if rl \<noteq> 0 then tl (space p) else space p),
                     lock := False\<rparr>"
    by (simp_all add: rl_def head'_def)
  have "unat rl < 2 ^ 31" using rl_le un N31 by simp
  then show "rc = int (unat rl)" by (simp add: rc sint_small)
  show "length dst' = length dst" using rl_len rl_le un lb by (simp add: dst')
  show "take (unat rl) dst' = take (unat rl) (contents p)"
    using rl_le un lb by (simp add: dst' contents_def u min_absorb2)
  show util': "utilization p' = Inr (u - rl)"
  proof (cases "rl = 0")
    case True
    then have "head' = head p" using hd by (simp add: head'_def mod_size_id)
    then show ?thesis using True u sz by (auto simp: p' utilization_def split: if_splits)
  next
    case False
    then have pos: "0 < unat rl" by (simp add: unat_gt_0)
    have "unat ((tail p - head' + buffer_size p) mod buffer_size p)
          = (?t + (?N - unat head')) mod ?N"
      using util_bridge [OF h'lt tl N31] .
    also have "\<dots> = unat u - unat rl"
      unfolding t_eq h' using ring_distance_read [OF hn rl_le un pos] .
    finally have "(tail p - head' + buffer_size p) mod buffer_size p = u - rl"
      by (simp add: word_unat_eq_iff diff)
    then show ?thesis using False sz by (simp add: utilization_def p')
  qed
  have "rotate (unat head') (buffer p) = rotate (?h + unat rl) (buffer p)"
    unfolding h' lb [symmetric] by (rule rotate_mod_length)
  also have "\<dots> = rotate (unat rl) ?Y"
    by (simp add: rotate_rotate add.commute)
  also have "\<dots> = drop (unat rl) ?Y @ take (unat rl) ?Y"
    using rl_le un lb by (intro rotate_le) simp
  finally have "contents p' = take (unat u - unat rl) (drop (unat rl) ?Y @ take (unat rl) ?Y)"
    using util' by (simp add: contents_def diff p')
  also have "\<dots> = take (unat u - unat rl) (drop (unat rl) ?Y)"
    using un lb by simp
  also have "\<dots> = drop (unat rl) (take (unat u) ?Y)"
    by (simp add: drop_take)
  finally show "contents p' = drop (unat rl) (contents p)"
    by (simp add: contents_def u)
qed

lemma contents_lock [simp]: "contents (p\<lparr>lock := b\<rparr>) = contents p"
  and contents_waiting [simp]: "contents (p\<lparr>waiting := n\<rparr>) = contents p"
  and contents_data [simp]: "contents (p\<lparr>data := q\<rparr>) = contents p"
  and contents_space [simp]: "contents (p\<lparr>space := q\<rparr>) = contents p"
  by (simp_all add: contents_def utilization_def)

lemma contents_flags:
  "(PIPE_FLAG_FULL \<in> f \<longleftrightarrow> PIPE_FLAG_FULL \<in> flags p) \<Longrightarrow> contents (p\<lparr>flags := f\<rparr>) = contents p"
  by (simp add: contents_def utilization_def)

lemma fits_int_lock [simp]: "fits_int (p\<lparr>lock := b\<rparr>) = fits_int p"
  and fits_int_waiting [simp]: "fits_int (p\<lparr>waiting := n\<rparr>) = fits_int p"
  and fits_int_data [simp]: "fits_int (p\<lparr>data := q\<rparr>) = fits_int p"
  and fits_int_space [simp]: "fits_int (p\<lparr>space := q\<rparr>) = fits_int p"
  by (simp_all add: fits_int_def)

lemma wait_for_pend_contents:
  assumes "wait_for_pend wq p timeout t = (r, p')"
  shows "contents p' = contents p" and "r = Some rc \<Longrightarrow> rc < 0"
  using assms
  by (auto simp: wait_for_pend_def z_pend_curr_def k_spin_unlock_def waitq_set_def waitq_get_def
      EAGAIN_def split: if_splits waitq.splits)

lemma wait_for_wake_contents:
  assumes "wait_for_wake p cond = Inr (rc, p')"
  shows "contents p' = contents p" and "rc \<le> 0"
    and "rc = 0 \<or> rc = - EPIPE \<Longrightarrow> PIPE_FLAG_RESET \<in> flags p' \<longleftrightarrow> PIPE_FLAG_RESET \<in> flags p"
  using assms
  by (auto simp: wait_for_wake_def Let_def k_spin_lock_def EPIPE_def ECANCELED_def EAGAIN_def
      contents_flags split: if_splits sum.splits)

lemma write_xfer_stream:
  assumes ok: "pipe_ok p" and sm: "fits_int p" and len: "unat len \<le> length dat"
    and x: "k_pipe_write_xfer p dat len = Inr (rc, p', w)"
  shows "contents p' = contents p @ take (nat rc) dat"
proof (cases "PIPE_FLAG_OPEN \<in> flags p")
  case False
  then show ?thesis using x by (auto simp: k_pipe_write_xfer_def k_spin_unlock_def EPIPE_def)
next
  case True
  from utilization_ok [OF ok] obtain u where u: "utilization p = Inr u" by blast
  from write_xfer_contents [OF ok sm True len u x] show ?thesis by simp
qed

lemma read_xfer_stream:
  assumes ok: "pipe_ok p" and sm: "fits_int p" and len: "unat len \<le> length dst"
    and x: "k_pipe_read_xfer p dst len = Inr ((rc, dst'), p', w)"
  shows "contents p = take (nat rc) dst' @ contents p'"
proof -
  from utilization_ok [OF ok] obtain u where u: "utilization p = Inr u" by blast
  show ?thesis
  proof (cases "u = 0 \<and> PIPE_FLAG_OPEN \<notin> flags p")
    case True
    then show ?thesis using x u by (auto simp: k_pipe_read_xfer_def k_spin_unlock_def EPIPE_def)
  next
    case False
    from read_xfer_contents [OF ok sm len u False x] show ?thesis by simp
  qed
qed

lemma write_stream:
  assumes ok: "pipe_ok p" and sm: "fits_int p" and len: "unat len \<le> length dat"
    and x: "z_impl_k_pipe_write p dat len timeout t = Inr (r, p', w)"
  shows "contents p' = contents p @ (case r of None \<Rightarrow> [] | Some rc \<Rightarrow> take (nat rc) dat)"
proof -
  let ?p = "k_spin_lock p"
  have ok': "pipe_ok ?p" and sm': "fits_int ?p" and c': "contents ?p = contents p"
    using ok sm by (simp_all add: k_spin_lock_def)
  from utilization_ok [OF ok'] obtain u where u: "utilization ?p = Inr u" by blast
  show ?thesis
  proof (cases "u = buffer_size ?p")
    case True
    obtain r1 q where w: "wait_for_pend WQ_space ?p timeout t = (r1, q)" by force
    from wait_for_pend_contents [OF w] have "contents q = contents p"
      and "\<And>rc. r1 = Some rc \<Longrightarrow> rc < 0" using c' by simp_all
    then show ?thesis
      using x u True w
      by (cases r1) (auto simp: z_impl_k_pipe_write_def Let_def queue_full_def k_spin_unlock_def)
  next
    case False
    then obtain rc where "k_pipe_write_xfer ?p dat len = Inr (rc, p', w)" and "r = Some rc"
      using x u by (auto simp: z_impl_k_pipe_write_def Let_def queue_full_def map_Some_Inr)
    with write_xfer_stream [OF ok' sm' len] c' show ?thesis by simp
  qed
qed

lemma read_stream:
  assumes ok: "pipe_ok p" and sm: "fits_int p" and len: "unat len \<le> length dst"
    and x: "z_impl_k_pipe_read p dst len timeout t = Inr (r, p', w)"
  shows "contents p = (case r of None \<Rightarrow> [] | Some (rc, dst') \<Rightarrow> take (nat rc) dst') @ contents p'"
proof -
  let ?p = "k_spin_lock p"
  have ok': "pipe_ok ?p" and sm': "fits_int ?p" and c': "contents ?p = contents p"
    using ok sm by (simp_all add: k_spin_lock_def)
  from utilization_ok [OF ok'] obtain u where u: "utilization ?p = Inr u" by blast
  show ?thesis
  proof (cases "u = 0 \<and> PIPE_FLAG_OPEN \<in> flags ?p")
    case True
    obtain r1 q where w: "wait_for_pend WQ_data ?p timeout t = (r1, q)" by force
    from wait_for_pend_contents [OF w] have "contents q = contents p"
      and "\<And>rc. r1 = Some rc \<Longrightarrow> rc < 0" using c' by simp_all
    moreover have "r1 = Some rc \<Longrightarrow> rc \<noteq> - EPIPE" for rc
      using w by (auto simp: wait_for_pend_def EAGAIN_def EPIPE_def split: if_splits)
    ultimately show ?thesis
      using x u True w
      by (cases r1) (auto simp: z_impl_k_pipe_read_def Let_def k_spin_unlock_def)
  next
    case False
    then obtain rc dst' where "k_pipe_read_xfer ?p dst len = Inr ((rc, dst'), p', w)"
      and "r = Some (rc, dst')"
      using x u by (auto simp: z_impl_k_pipe_read_def Let_def map_Some_Inr)
    with read_xfer_stream [OF ok' sm' len] c' show ?thesis by simp
  qed
qed

lemma write_resume_stream:
  assumes ok: "pipe_ok p" and sm: "fits_int p" and len: "unat len \<le> length dat"
    and x: "z_impl_k_pipe_write_resume p dat len = Inr (rc, p', w)"
  shows "contents p' = contents p @ take (nat rc) dat"
proof -
  from wait_for_wake_pipe_ok [OF ok, of queue_full] obtain rc1 q
    where w: "wait_for_wake p queue_full = Inr (rc1, q)" "pipe_ok q" "buffer_size q = buffer_size p"
    by auto
  from wait_for_wake_contents [OF w(1)] have cq: "contents q = contents p" and neg: "rc1 \<le> 0"
    by simp_all
  have smq: "fits_int q" using sm w(3) by (simp add: fits_int_def)
  show ?thesis
  proof (cases "rc1 = 0")
    case True
    then have "k_pipe_write_xfer q dat len = Inr (rc, p', w)"
      using x w by (simp add: z_impl_k_pipe_write_resume_def)
    from write_xfer_stream [OF w(2) smq len this] cq show ?thesis by simp
  next
    case False
    then show ?thesis using x w cq neg by (auto simp: z_impl_k_pipe_write_resume_def k_spin_unlock_def)
  qed
qed

lemma read_resume_stream:
  assumes ok: "pipe_ok p" and sm: "fits_int p" and len: "unat len \<le> length dst"
    and x: "z_impl_k_pipe_read_resume p dst len = Inr ((rc, dst'), p', w)"
  shows "contents p = take (nat rc) dst' @ contents p'"
proof -
  from wait_for_wake_pipe_ok [OF ok, of queue_empty] obtain rc1 q
    where w: "wait_for_wake p queue_empty = Inr (rc1, q)" "pipe_ok q" "buffer_size q = buffer_size p"
    by auto
  from wait_for_wake_contents [OF w(1)] have cq: "contents q = contents p" and neg: "rc1 \<le> 0"
    by simp_all
  have smq: "fits_int q" using sm w(3) by (simp add: fits_int_def)
  show ?thesis
  proof (cases "rc1 \<noteq> 0 \<and> rc1 \<noteq> - EPIPE")
    case False
    then have "k_pipe_read_xfer q dst len = Inr ((rc, dst'), p', w)"
      using x w by (auto simp: z_impl_k_pipe_read_resume_def)
    from read_xfer_stream [OF w(2) smq len this] cq show ?thesis by simp
  next
    case True
    then show ?thesis using x w cq neg by (auto simp: z_impl_k_pipe_read_resume_def k_spin_unlock_def)
  qed
qed

subsection \<open>The byte streams of a run\<close>

lemma written_finish:
  "written (finish t c r p w k) =
     written k @ (case r of None \<Rightarrow> [] | Some (rc, out) \<Rightarrow> accepted (t, c, rc, out))"
  and was_read_finish:
  "was_read (finish t c r p w k) =
     was_read k @ (case r of None \<Rightarrow> [] | Some (rc, out) \<Rightarrow> delivered (t, c, rc, out))"
  by (simp_all add: finish_def written_def was_read_def split: option.splits)

lemma step_fifo:
  assumes s: "step e k = Inr k'" and ok: "kernel_ok k" and sm: "fits_int (kpipe k)"
    and wf: "wf_event e" and io: "io_event e"
    and f: "written k = was_read k @ contents (kpipe k)"
  shows "written k' = was_read k' @ contents (kpipe k')"
proof -
  have pk: "pipe_ok (kpipe k)" using ok by (simp add: kernel_ok_def)
  have wfc: "threads k t = Pended c' \<or> threads k t = Readied c' \<Longrightarrow> wf_call c'" for t c'
    using ok by (auto simp: kernel_ok_def)
  show ?thesis
  proof (cases e)
    case (Call t cl)
    then have wfcl: "wf_call cl" using wf by (simp add: wf_event_def)
    show ?thesis
    proof (cases "threads k t = Idle")
      case False
      then show ?thesis using s Call f by simp
    next
      case True
      then have ce: "call_enter t cl k = Inr k'" using s Call by simp
      show ?thesis
      proof (cases cl)
        case (Write dat len timeout)
        then have len: "unat len \<le> length dat" using wfcl by (simp add: wf_call_def)
        from ce Write obtain r p' w
          where x: "z_impl_k_pipe_write (kpipe k) dat len timeout t = Inr (r, p', w)"
            and k': "k' = finish t cl (map_option (\<lambda>rc. (rc, [])) r) p' w k"
          by (auto simp: call_enter_def split: sum.splits)
        from write_stream [OF pk sm len x] f show ?thesis
          by (cases r) (simp_all add: k' written_finish was_read_finish accepted_def delivered_def Write)
      next
        case (Read dst len timeout)
        then have len: "unat len \<le> length dst" using wfcl by (simp add: wf_call_def)
        from ce Read obtain r p' w
          where x: "z_impl_k_pipe_read (kpipe k) dst len timeout t = Inr (r, p', w)"
            and k': "k' = finish t cl r p' w k"
          by (auto simp: call_enter_def split: sum.splits)
        from read_stream [OF pk sm len x] f show ?thesis
          by (cases r) (auto simp: k' written_finish was_read_finish accepted_def delivered_def Read)
      next
        case Reset
        then show ?thesis using io Call by (simp add: io_event_def)
      next
        case Close
        then show ?thesis using io Call by (simp add: io_event_def)
      qed
    qed
  next
    case (Timeout t)
    then show ?thesis
      using s f by (auto simp: z_unpend_thread_def written_def was_read_def split: thread.splits if_splits)
  next
    case (Resume t)
    show ?thesis
    proof (cases "threads k t")
      case (Readied cl)
      then have wfcl: "wf_call cl" using wfc by blast
      have cr: "call_resume t cl k = Inr k'" using s Resume Readied by simp
      show ?thesis
      proof (cases cl)
        case (Write dat len timeout)
        then have len: "unat len \<le> length dat" using wfcl by (simp add: wf_call_def)
        from cr Write obtain rc p' w
          where x: "z_impl_k_pipe_write_resume (kpipe k) dat len = Inr (rc, p', w)"
            and k': "k' = finish t cl (Some (rc, [])) p' w k"
          by (auto simp: call_resume_def split: sum.splits)
        from write_resume_stream [OF pk sm len x] f show ?thesis
          by (simp add: k' written_finish was_read_finish accepted_def delivered_def Write)
      next
        case (Read dst len timeout)
        then have len: "unat len \<le> length dst" using wfcl by (simp add: wf_call_def)
        from cr Read obtain rc dst' p' w
          where x: "z_impl_k_pipe_read_resume (kpipe k) dst len = Inr ((rc, dst'), p', w)"
            and k': "k' = finish t cl (Some (rc, dst')) p' w k"
          by (auto simp: call_resume_def split: sum.splits)
        from read_resume_stream [OF pk sm len x] f show ?thesis
          by (simp add: k' written_finish was_read_finish accepted_def delivered_def Read)
      qed (use cr f in \<open>simp_all add: call_resume_def\<close>)
    qed (use s Resume f in simp_all)
  qed
qed

lemma run_fifo:
  assumes "run evs k = Inr k'" and "kernel_ok k" and "fits_int (kpipe k)"
    and "\<forall>e\<in>set evs. wf_event e \<and> io_event e"
    and "written k = was_read k @ contents (kpipe k)"
  shows "written k' = was_read k' @ contents (kpipe k')"
  using assms
proof (induction evs arbitrary: k)
  case Nil
  then show ?case by simp
next
  case (Cons e evs)
  from step_kernel_ok [of k e] Cons.prems obtain k1
    where s: "step e k = Inr k1" "kernel_ok k1" "buffer_size (kpipe k1) = buffer_size (kpipe k)"
    by auto
  have sm1: "fits_int (kpipe k1)" using Cons.prems(3) s(3) by (simp add: fits_int_def)
  from step_fifo [OF s(1) Cons.prems(2,3) _ _ Cons.prems(5)] Cons.prems(4)
  have "written k1 = was_read k1 @ contents (kpipe k1)" by simp
  from Cons.IH [OF _ s(2) sm1 _ this] Cons.prems s(1) show ?case by simp
qed

lemma fifo_from_boot:
  assumes sz: "sz \<noteq> 0" and small: "unat sz < 2 ^ 31" and st: "length storage = unat sz"
    and evs: "\<forall>e\<in>set evs. wf_event e \<and> io_event e"
  shows "\<exists>k. run evs (boot storage sz) = Inr k \<and>
           written k = was_read k @ contents (kpipe k) \<and> prefix (was_read k) (written k)"
proof -
  have wf: "\<forall>e\<in>set evs. wf_event e" using evs by simp
  from run_kernel_ok [OF boot_kernel_ok(1) wf, OF sz st]
  obtain k where k: "run evs (boot storage sz) = Inr k" by auto
  have "fits_int (kpipe (boot storage sz))"
    using small by (simp add: fits_int_def boot_def z_impl_k_pipe_init_def)
  moreover have "written (boot storage sz) = was_read (boot storage sz) @ contents (kpipe (boot storage sz))"
    using sz by (simp add: written_def was_read_def boot_def contents_def utilization_def z_impl_k_pipe_init_def)
  ultimately have "written k = was_read k @ contents (kpipe k)"
    using run_fifo [OF k boot_kernel_ok(1) _ evs, OF sz st] by simp
  with k show ?thesis by (auto simp: prefix_def)
qed

lemma roundtrip:
  assumes ok: "pipe_ok p" and sm: "fits_int p" and opn: "PIPE_FLAG_OPEN \<in> flags p"
    and empty: "queue_empty p = Inr True"
    and n0: "n \<noteq> 0" and nsz: "n \<le> buffer_size p"
    and ldat: "unat n \<le> length dat" and ldst: "unat n \<le> length dst"
  shows "\<exists>p1 w1 dst' p2 w2.
           z_impl_k_pipe_write p dat n timeout1 t1 = Inr (Some (int (unat n)), p1, w1) \<and>
           z_impl_k_pipe_read p1 dst n timeout2 t2 = Inr (Some (int (unat n), dst'), p2, w2) \<and>
           take (unat n) dst' = take (unat n) dat \<and> queue_empty p2 = Inr True"
proof -
  let ?p = "k_spin_lock p"
  have ok': "pipe_ok ?p" and sm': "fits_int ?p" and opn': "PIPE_FLAG_OPEN \<in> flags ?p"
    using ok sm opn by (simp_all add: k_spin_lock_def)
  have sz: "buffer_size p \<noteq> 0" using ok by (simp add: pipe_ok_def)
  have u: "utilization ?p = Inr 0"
    using empty by (auto simp: queue_empty_def k_spin_lock_def split: sum.splits)
  have wl: "min (buffer_size ?p) n = n" using nsz by (simp add: k_spin_lock_def min_absorb2)
  from write_xfer_pipe_ok [OF ok' ldat] obtain rc p1 w1
    where x1: "k_pipe_write_xfer ?p dat n = Inr (rc, p1, w1)" and ok1: "pipe_ok p1"
      and bs1: "buffer_size p1 = buffer_size p"
    by (auto simp: k_spin_lock_def)
  from write_xfer_contents [OF ok' sm' opn' ldat u x1]
  have rc: "rc = int (unat n)" and u1: "utilization p1 = Inr n"
    and c1: "contents p1 = take (unat n) dat"
    using u by (simp_all add: wl contents_def)
  have w: "z_impl_k_pipe_write p dat n timeout1 t1 = Inr (Some (int (unat n)), p1, w1)"
    using u x1 rc sz by (simp add: z_impl_k_pipe_write_def Let_def queue_full_def k_spin_lock_def)
  let ?q = "k_spin_lock p1"
  have okq: "pipe_ok ?q" and smq: "fits_int ?q"
    using ok1 sm bs1 by (simp_all add: k_spin_lock_def fits_int_def)
  have uq: "utilization ?q = Inr n" and cq: "contents ?q = take (unat n) dat"
    using u1 c1 by (simp_all add: k_spin_lock_def)
  have ne: "\<not> (n = 0 \<and> PIPE_FLAG_OPEN \<notin> flags ?q)" using n0 by simp
  from read_xfer_pipe_ok [OF okq ldst] obtain rc2 dst' p2 w2
    where x2: "k_pipe_read_xfer ?q dst n = Inr ((rc2, dst'), p2, w2)"
    by auto
  from read_xfer_contents [OF okq smq ldst uq ne x2]
  have rc2: "rc2 = int (unat n)" and u2: "utilization p2 = Inr 0"
    and d: "take (unat n) dst' = take (unat n) dat"
    by (simp_all add: cq)
  have r: "z_impl_k_pipe_read p1 dst n timeout2 t2 = Inr (Some (int (unat n), dst'), p2, w2)"
    using uq x2 rc2 n0 by (simp add: z_impl_k_pipe_read_def Let_def)
  show ?thesis using w r d u2 by (auto simp: queue_empty_def)
qed

subsection \<open>The reset handshake\<close>

lemma write_xfer_frame:
  assumes "k_pipe_write_xfer p dat len = Inr (rc, p', w)"
  shows "waiting p' = waiting p \<and> flags p' - {PIPE_FLAG_FULL} = flags p - {PIPE_FLAG_FULL}"
  using assms
  by (auto simp: k_pipe_write_xfer_def Let_def k_spin_unlock_def notify_waiter_shape
      split: if_splits sum.splits)

lemma read_xfer_frame:
  assumes "k_pipe_read_xfer p dst len = Inr (r, p', w)"
  shows "waiting p' = waiting p \<and> flags p' - {PIPE_FLAG_FULL} = flags p - {PIPE_FLAG_FULL}"
  using assms
  by (auto simp: k_pipe_read_xfer_def Let_def k_spin_unlock_def notify_waiter_shape
      split: if_splits sum.splits)

lemma handshake_frame:
  assumes "waiting p' = waiting p" and "flags p' - {PIPE_FLAG_FULL} = flags p - {PIPE_FLAG_FULL}"
    and "handshake_ok p"
  shows "handshake_ok p'"
  using assms by (auto simp: handshake_ok_def)

lemma handshake_lock [simp]: "handshake_ok (p\<lparr>lock := b\<rparr>) = handshake_ok p"
  by (simp add: handshake_ok_def)

lemma wait_for_pend_handshake:
  assumes "wait_for_pend wq p timeout t = (r, p')" and "handshake_ok p"
  shows "handshake_ok p'" and "r = Some rc \<Longrightarrow> rc \<noteq> 0 \<and> rc \<noteq> - EPIPE"
  using assms
  by (auto simp: wait_for_pend_def z_pend_curr_def k_spin_unlock_def waitq_set_def waitq_get_def
      handshake_ok_def EAGAIN_def EPIPE_def split: if_splits waitq.splits)

lemma wait_for_wake_handshake:
  assumes "wait_for_wake p cond = Inr (rc, p')" and "handshake_ok p"
  shows "handshake_ok p'"
  using assms
  by (auto simp: wait_for_wake_def Let_def k_spin_lock_def handshake_ok_def split: if_splits sum.splits)

lemma write_handshake:
  assumes x: "z_impl_k_pipe_write p dat len timeout t = Inr (r, p', w)" and h: "handshake_ok p"
  shows "handshake_ok p'"
proof -
  let ?p = "k_spin_lock p"
  have h': "handshake_ok ?p" using h by (simp add: k_spin_lock_def)
  obtain r1 q where w: "wait_for_pend WQ_space ?p timeout t = (r1, q)" by force
  note wq = wait_for_pend_handshake [OF w h']
  have xf: "k_pipe_write_xfer ?p dat len = Inr (rc, p', w) \<Longrightarrow> handshake_ok p'" for rc
    using write_xfer_frame [of ?p dat len rc p' w] h' by (auto intro: handshake_frame)
  show ?thesis
    using x w wq xf
    by (cases r1)
      (auto simp: z_impl_k_pipe_write_def Let_def queue_full_def k_spin_unlock_def map_Some_Inr
        split: sum.splits if_splits)
qed

lemma read_handshake:
  assumes x: "z_impl_k_pipe_read p dst len timeout t = Inr (r, p', w)" and h: "handshake_ok p"
  shows "handshake_ok p'"
proof -
  let ?p = "k_spin_lock p"
  have h': "handshake_ok ?p" using h by (simp add: k_spin_lock_def)
  obtain r1 q where w: "wait_for_pend WQ_data ?p timeout t = (r1, q)" by force
  note wq = wait_for_pend_handshake [OF w h']
  have xf: "k_pipe_read_xfer ?p dst len = Inr (rc, p', w) \<Longrightarrow> handshake_ok p'" for rc
    using read_xfer_frame [of ?p dst len rc p' w] h' by (auto intro: handshake_frame)
  show ?thesis
    using x w wq xf
    by (cases r1)
      (auto simp: z_impl_k_pipe_read_def Let_def k_spin_unlock_def map_Some_Inr
        split: sum.splits if_splits)
qed

lemma write_resume_handshake:
  assumes x: "z_impl_k_pipe_write_resume p dat len = Inr (rc, p', w)" and h: "handshake_ok p"
  shows "handshake_ok p'"
proof -
  from x obtain rc1 q where w: "wait_for_wake p queue_full = Inr (rc1, q)"
    by (auto simp: z_impl_k_pipe_write_resume_def split: sum.splits)
  from wait_for_wake_handshake [OF w h] have hq: "handshake_ok q" .
  have xf: "k_pipe_write_xfer q dat len = Inr (rc, p', w) \<Longrightarrow> handshake_ok p'"
    using write_xfer_frame [of q dat len rc p' w] hq by (auto intro: handshake_frame)
  show ?thesis
    using x w hq xf
    by (auto simp: z_impl_k_pipe_write_resume_def k_spin_unlock_def split: if_splits)
qed

lemma read_resume_handshake:
  assumes x: "z_impl_k_pipe_read_resume p dst len = Inr (r, p', w)" and h: "handshake_ok p"
  shows "handshake_ok p'"
proof -
  from x obtain rc1 q where w: "wait_for_wake p queue_empty = Inr (rc1, q)"
    by (auto simp: z_impl_k_pipe_read_resume_def split: sum.splits)
  from wait_for_wake_handshake [OF w h] have hq: "handshake_ok q" .
  have xf: "k_pipe_read_xfer q dst len = Inr (r, p', w) \<Longrightarrow> handshake_ok p'"
    using read_xfer_frame [of q dst len r p' w] hq by (auto intro: handshake_frame)
  show ?thesis
    using x w hq xf
    by (auto simp: z_impl_k_pipe_read_resume_def k_spin_unlock_def split: if_splits)
qed

lemma reset_handshake:
  assumes "z_impl_k_pipe_reset p = (rc, p', w)" and "waiting p \<noteq> 0"
  shows "handshake_ok p'"
  using assms
  by (auto simp: z_impl_k_pipe_reset_def Let_def z_unpend_all_def waitq_set_def waitq_get_def
      k_spin_lock_def k_spin_unlock_def handshake_ok_def)

lemma close_handshake:
  assumes "z_impl_k_pipe_close p = (rc, p', w)" and "handshake_ok p"
  shows "handshake_ok p'"
  using assms
  by (auto simp: z_impl_k_pipe_close_def Let_def z_unpend_all_def waitq_set_def waitq_get_def
      k_spin_lock_def k_spin_unlock_def handshake_ok_def split: if_splits)

lemma reset_handshake_step:
  assumes s: "step e k = Inr k'" and h: "handshake_ok (kpipe k)"
    and r: "\<And>t. e = Call t Reset \<Longrightarrow> waiting (kpipe k) \<noteq> 0"
  shows "handshake_ok (kpipe k')"
proof (cases e)
  case (Call t cl)
  show ?thesis
  proof (cases "threads k t = Idle")
    case False
    then show ?thesis using s Call h by simp
  next
    case True
    then have ce: "call_enter t cl k = Inr k'" using s Call by simp
    show ?thesis
    proof (cases cl)
      case (Write dat len timeout)
      then show ?thesis
        using ce write_handshake [OF _ h] by (auto simp: call_enter_def split: sum.splits)
    next
      case (Read dst len timeout)
      then show ?thesis
        using ce read_handshake [OF _ h] by (auto simp: call_enter_def split: sum.splits)
    next
      case Reset
      then have "waiting (kpipe k) \<noteq> 0" using r Call by simp
      then show ?thesis
        using ce Reset reset_handshake by (auto simp: call_enter_def split: prod.splits)
    next
      case Close
      then show ?thesis
        using ce close_handshake [OF _ h] by (auto simp: call_enter_def split: prod.splits)
    qed
  qed
next
  case (Timeout t)
  then show ?thesis
    using s h by (auto simp: z_unpend_thread_def handshake_ok_def split: thread.splits if_splits)
next
  case (Resume t)
  show ?thesis
  proof (cases "threads k t")
    case (Readied cl)
    have cr: "call_resume t cl k = Inr k'" using s Resume Readied by simp
    show ?thesis
    proof (cases cl)
      case (Write dat len timeout)
      then show ?thesis
        using cr write_resume_handshake [OF _ h] by (auto simp: call_resume_def split: sum.splits)
    next
      case (Read dst len timeout)
      then show ?thesis
        using cr read_resume_handshake [OF _ h] by (auto simp: call_resume_def split: sum.splits)
    qed (use cr h in \<open>simp_all add: call_resume_def\<close>)
  qed (use s Resume h in simp_all)
qed

subsection \<open>The reset flag of a closed pipe\<close>


lemma reset_off_lock [simp]: "reset_off (p\<lparr>lock := b\<rparr>) = reset_off p"
  by (simp add: reset_off_def)











subsection \<open>A count that does not fit the return value\<close>

lemma write_count_overflows_int:
  "\<exists>p' w. z_impl_k_pipe_write (z_impl_k_pipe_init (replicate (2 ^ 31) 0) (2 ^ 31))
             (replicate (2 ^ 31) 1) (2 ^ 31) K_NO_WAIT 0 = Inr (Some (- (2 ^ 31)), p', w)"
proof -
  let ?p = "k_spin_lock (z_impl_k_pipe_init (replicate (2 ^ 31) 0) (2 ^ 31))"
  have ok: "pipe_ok ?p"
    by (simp add: pipe_ok_def z_impl_k_pipe_init_def k_spin_lock_def)
  have opn: "PIPE_FLAG_OPEN \<in> flags ?p"
    by (simp add: z_impl_k_pipe_init_def k_spin_lock_def)
  have u: "utilization ?p = Inr 0"
    by (simp add: utilization_def z_impl_k_pipe_init_def k_spin_lock_def)
  have len: "unat (2 ^ 31 :: size_t) \<le> length (replicate (2 ^ 31) (1 :: uint8_t))"
    by simp
  have s: "sint (2 ^ 31 :: size_t) = - (2 ^ 31)" by simp
  from write_xfer_shape [OF ok opn len u]
  obtain p' w where "k_pipe_write_xfer ?p (replicate (2 ^ 31) 1) (2 ^ 31) = Inr (sint (2 ^ 31 :: size_t), p', w)"
    by (simp add: z_impl_k_pipe_init_def k_spin_lock_def)
  moreover have "buffer_size ?p \<noteq> 0"
    by (simp add: z_impl_k_pipe_init_def k_spin_lock_def)
  ultimately show ?thesis
    using u by (simp add: z_impl_k_pipe_write_def Let_def queue_full_def s)
qed

subsection \<open>Close\<close>

text \<open>
  Claim C9. Close on an open pipe returns 0 (OK) and clears the whole flag word, so
  neither the open nor the reset bit is left; it empties both wait queues and makes
  their threads ready. Close on the pipe it leaves returns \<open>-EALREADY\<close> and does not
  change the pipe.
\<close>

theorem close_one_shot:
  assumes "PIPE_FLAG_OPEN \<in> flags pipe"
  shows "\<exists>pipe' woken.
           z_impl_k_pipe_close pipe = (0, pipe', woken) \<and>
           flags pipe' = {} \<and> PIPE_FLAG_OPEN \<notin> flags pipe' \<and> PIPE_FLAG_RESET \<notin> flags pipe' \<and>
           data pipe' = [] \<and> space pipe' = [] \<and> woken = data pipe @ space pipe \<and>
           z_impl_k_pipe_close pipe' = (- EALREADY, pipe', []) \<and> - EALREADY \<noteq> 0"
  using assms
  by (simp add: z_impl_k_pipe_close_def z_unpend_all_def waitq_set_def waitq_get_def
      k_spin_lock_def k_spin_unlock_def EALREADY_def)

theorem close_one_shot_witness:
  "PIPE_FLAG_OPEN \<in> flags (z_impl_k_pipe_init [0, 0] 2) \<and>
   (\<exists>pipe' woken.
      z_impl_k_pipe_close (z_impl_k_pipe_init [0, 0] 2) = (0, pipe', woken) \<and>
      flags pipe' = {} \<and> z_impl_k_pipe_close pipe' = (- EALREADY, pipe', []))"
proof -
  have h: "PIPE_FLAG_OPEN \<in> flags (z_impl_k_pipe_init [0, 0] 2)"
    by (simp add: z_impl_k_pipe_init_def)
  from close_one_shot [OF h] show ?thesis using h by blast
qed

subsection \<open>The wait helper\<close>

text \<open>
  Claim C7. Called with the lock held, \<^verbatim>\<open>wait_for\<close> returns \<open>-EAGAIN\<close> at once and
  releases the lock when the timeout is no-wait or the reset flag is set; otherwise it
  counts the thread in \<open>waiting\<close> and suspends it at the end of the queue, the lock
  released. When the thread is resumed it takes the lock, decrements \<open>waiting\<close> and
  classifies in this order: \<open>-EPIPE\<close> if the open flag is off; else \<open>-ECANCELED\<close>
  if the reset flag is on, clearing the reset flag exactly when \<open>waiting\<close> is zero after
  the decrement; else 0 if the condition waited on no longer holds; else \<open>-EAGAIN\<close>.
\<close>

theorem wait_for_spec:
  assumes "lock pipe"
  shows "(K_TIMEOUT_EQ timeout K_NO_WAIT \<or> PIPE_FLAG_RESET \<in> flags pipe \<longrightarrow>
            wait_for_pend wq pipe timeout t = (Some (- EAGAIN), pipe\<lparr>lock := False\<rparr>)) \<and>
         (\<not> (K_TIMEOUT_EQ timeout K_NO_WAIT \<or> PIPE_FLAG_RESET \<in> flags pipe) \<longrightarrow>
            wait_for_pend wq pipe timeout t =
              (None, waitq_set wq (waitq_get wq pipe @ [t])
                       (pipe\<lparr>waiting := waiting pipe + 1, lock := False\<rparr>))) \<and>
         (let held = resumed\<lparr>lock := True, waiting := waiting resumed - 1\<rparr> in
            wait_for_wake resumed cond =
              (if PIPE_FLAG_OPEN \<notin> flags resumed then Inr (- EPIPE, held)
               else if PIPE_FLAG_RESET \<in> flags resumed
               then Inr (- ECANCELED,
                         if waiting resumed - 1 = 0
                         then held\<lparr>flags := flags resumed - {PIPE_FLAG_RESET}\<rparr>
                         else held)
               else if cond held = Inr False then Inr (0, held)
               else if cond held = Inr True then Inr (- EAGAIN, held)
               else Inl (projl (cond held))))"
  by (cases "cond (resumed\<lparr>lock := True, waiting := waiting resumed - 1\<rparr>)")
    (simp_all add: wait_for_pend_def wait_for_wake_def z_pend_curr_def k_spin_lock_def
      k_spin_unlock_def waitq_set_def waitq_get_def Let_def split: waitq.splits)

theorem wait_for_spec_witness:
  "lock (k_spin_lock (z_impl_k_pipe_init [0, 0] 2)) \<and>
   wait_for_pend WQ_data (k_spin_lock (z_impl_k_pipe_init [0, 0] 2)) 0 7 =
     (Some (- EAGAIN), z_impl_k_pipe_init [0, 0] 2) \<and>
   wait_for_pend WQ_data (k_spin_lock (z_impl_k_pipe_init [0, 0] 2)) K_FOREVER 7 =
     (None, (z_impl_k_pipe_init [0, 0] 2)\<lparr>waiting := 1, data := [7]\<rparr>) \<and>
   wait_for_wake ((z_impl_k_pipe_init [0, 0] 2)
                    \<lparr>waiting := 1, flags := {PIPE_FLAG_OPEN, PIPE_FLAG_RESET}\<rparr>) queue_empty =
     Inr (- ECANCELED, (z_impl_k_pipe_init [0, 0] 2)\<lparr>lock := True\<rparr>)"
proof -
  have h: "lock (k_spin_lock (z_impl_k_pipe_init [0, 0] 2))"
    by (simp add: k_spin_lock_def)
  have nowait: "K_TIMEOUT_EQ 0 K_NO_WAIT" and forever: "\<not> K_TIMEOUT_EQ K_FOREVER K_NO_WAIT"
    by (simp_all add: K_TIMEOUT_EQ_def K_NO_WAIT_def K_FOREVER_def)
  show ?thesis
    using h nowait forever
      wait_for_spec [OF h, of 0 WQ_data 7
        "(z_impl_k_pipe_init [0, 0] 2)\<lparr>waiting := 1, flags := {PIPE_FLAG_OPEN, PIPE_FLAG_RESET}\<rparr>"
        queue_empty]
      wait_for_spec [OF h, of K_FOREVER WQ_data 7
        "(z_impl_k_pipe_init [0, 0] 2)\<lparr>waiting := 1, flags := {PIPE_FLAG_OPEN, PIPE_FLAG_RESET}\<rparr>"
        queue_empty]
    by (simp add: z_impl_k_pipe_init_def k_spin_lock_def waitq_set_def waitq_get_def insert_Diff_if)
qed

subsection \<open>Reset\<close>

text \<open>
  Claim C1 says that the reset flag is off whenever no thread waits and no call is in
  progress. The code sets the flag in every reset and leaves its clearing to the last
  waiter that departs, so a reset that finds no waiter leaves the flag on for good.
  On a fresh pipe of two bytes a read with timeout forever suspends the caller; after
  a reset of the fresh pipe all threads are idle, \<open>waiting\<close> is 0 and the reset flag is
  on; the same read after that reset returns \<open>-EAGAIN\<close> at once instead of suspending.
\<close>

theorem reset_without_waiters_sticks:
  "run [Call 0 (Read [0] 1 K_FOREVER)] (boot [0, 0] 2) =
     Inr \<lparr>kpipe = \<lparr>buffer = [0, 0], buffer_size = 2, head = 0, tail = 0, waiting = 1,
                    flags = {PIPE_FLAG_OPEN}, lock = False, data = [0], space = []\<rparr>,
          threads = (\<lambda>t. Idle)(0 := Pended (Read [0] 1 K_FOREVER)),
          returns = []\<rparr> \<and>
   run [Call 0 Reset] (boot [0, 0] 2) =
     Inr \<lparr>kpipe = \<lparr>buffer = [0, 0], buffer_size = 2, head = 0, tail = 0, waiting = 0,
                    flags = {PIPE_FLAG_RESET, PIPE_FLAG_OPEN}, lock = False, data = [], space = []\<rparr>,
          threads = (\<lambda>t. Idle),
          returns = [(0, Reset, 0, [])]\<rparr> \<and>
   run [Call 0 Reset, Call 0 (Read [0] 1 K_FOREVER)] (boot [0, 0] 2) =
     Inr \<lparr>kpipe = \<lparr>buffer = [0, 0], buffer_size = 2, head = 0, tail = 0, waiting = 0,
                    flags = {PIPE_FLAG_RESET, PIPE_FLAG_OPEN}, lock = False, data = [], space = []\<rparr>,
          threads = (\<lambda>t. Idle),
          returns = [(0, Reset, 0, []), (0, Read [0] 1 K_FOREVER, - EAGAIN, [0])]\<rparr>"
  by (simp add: pipe_defs kernel_defs Let_def fun_upd_def)

text \<open>
  Every step other than a reset that finds \<open>waiting = 0\<close> keeps the handshake
  (\<open>reset_handshake_step\<close> above): the last waiter to depart clears the flag, and
  only the reset without waiters leaves it on an open pipe that nobody waits on.
\<close>

text \<open>
  Claim C2 says that the occupancy is zero after reset, also for a full pipe. Reset
  zeroes both indices and leaves \<^verbatim>\<open>PIPE_FLAG_FULL\<close> as it is, and \<^verbatim>\<open>utilization\<close> looks at
  that flag first. A pipe of two bytes is filled and reset: the full flag is still on,
  the occupancy is 2, a following write of one byte returns \<open>-EAGAIN\<close> and a following
  read of two bytes returns the two bytes written before the reset.
\<close>

theorem reset_of_full_pipe_stays_full:
  "run [Call 0 (Write [1, 2] 2 K_NO_WAIT), Call 0 Reset] (boot [0, 0] 2) =
     Inr \<lparr>kpipe = \<lparr>buffer = [1, 2], buffer_size = 2, head = 0, tail = 0, waiting = 0,
                    flags = {PIPE_FLAG_RESET, PIPE_FLAG_FULL, PIPE_FLAG_OPEN}, lock = False,
                    data = [], space = []\<rparr>,
          threads = (\<lambda>t. Idle),
          returns = [(0, Write [1, 2] 2 K_NO_WAIT, 2, []), (0, Reset, 0, [])]\<rparr> \<and>
   utilization \<lparr>buffer = [1, 2], buffer_size = 2, head = 0, tail = 0, waiting = 0,
                flags = {PIPE_FLAG_RESET, PIPE_FLAG_FULL, PIPE_FLAG_OPEN}, lock = False,
                data = [], space = []\<rparr> = Inr 2 \<and>
   run [Call 0 (Write [1, 2] 2 K_NO_WAIT), Call 0 Reset, Call 0 (Write [3] 1 K_NO_WAIT),
        Call 0 (Read [0, 0] 2 K_NO_WAIT)] (boot [0, 0] 2) =
     Inr \<lparr>kpipe = \<lparr>buffer = [1, 2], buffer_size = 2, head = 0, tail = 0, waiting = 0,
                    flags = {PIPE_FLAG_RESET, PIPE_FLAG_OPEN}, lock = False, data = [], space = []\<rparr>,
          threads = (\<lambda>t. Idle),
          returns = [(0, Write [1, 2] 2 K_NO_WAIT, 2, []), (0, Reset, 0, []),
                     (0, Write [3] 1 K_NO_WAIT, - EAGAIN, []),
                     (0, Read [0, 0] 2 K_NO_WAIT, 2, [1, 2])]\<rparr>"
  by (simp add: pipe_defs kernel_defs Let_def insert_Diff_if insert_commute)

text \<open>
  On a pipe that is not full the claim holds: reset returns 0 and leaves the ring
  empty.
\<close>

lemma reset_empties_unless_full:
  assumes "pipe_ok p" and "PIPE_FLAG_FULL \<notin> flags p"
  shows "\<exists>p' w. z_impl_k_pipe_reset p = (0, p', w) \<and> utilization p' = Inr 0 \<and>
           queue_empty p' = Inr True \<and> contents p' = [] \<and> pipe_ok p'"
  using assms
  by (auto simp: z_impl_k_pipe_reset_def Let_def z_unpend_all_def waitq_set_def waitq_get_def
      k_spin_lock_def k_spin_unlock_def pipe_ok_def utilization_def queue_empty_def contents_def
      word_neq_0_conv)

subsection \<open>Capacity zero\<close>

text \<open>
  Claim C3 says that on a pipe of capacity zero every write and read blocks or returns
  \<open>-EAGAIN\<close>, the occupancy being well defined. After init the full flag is off, so
  \<^verbatim>\<open>utilization\<close> takes the remainder by \<^verbatim>\<open>buffer_size\<close>, which is zero: the first write or
  read divides by zero, whatever the timeout.
\<close>

theorem capacity_zero_divides_by_zero:
  "utilization (z_impl_k_pipe_init [] 0) = Inl DivisionByZero \<and>
   queue_full (z_impl_k_pipe_init [] 0) = Inl DivisionByZero \<and>
   z_impl_k_pipe_write (z_impl_k_pipe_init [] 0) [1] 1 K_NO_WAIT 0 = Inl DivisionByZero \<and>
   z_impl_k_pipe_write (z_impl_k_pipe_init [] 0) [1] 1 K_FOREVER 0 = Inl DivisionByZero \<and>
   z_impl_k_pipe_read (z_impl_k_pipe_init [] 0) [0] 1 K_NO_WAIT 0 = Inl DivisionByZero \<and>
   z_impl_k_pipe_read (z_impl_k_pipe_init [] 0) [0] 1 K_FOREVER 0 = Inl DivisionByZero"
  by (simp add: pipe_defs Let_def)

subsection \<open>Close and the buffered bytes\<close>

text \<open>
  Claim C6 says that bytes buffered at the time of close are still delivered to a
  reader. Close assigns 0 to the flag word, which also clears \<^verbatim>\<open>PIPE_FLAG_FULL\<close>; with
  equal indices and the full flag off the occupancy is 0. A pipe of two bytes is filled
  and closed: the read that follows returns \<open>-EPIPE\<close> and delivers nothing.
\<close>

theorem close_of_full_pipe_loses_data:
  "run [Call 0 (Write [1, 2] 2 K_NO_WAIT), Call 0 Close, Call 0 (Read [0, 0] 2 K_NO_WAIT)]
       (boot [0, 0] 2) =
     Inr \<lparr>kpipe = \<lparr>buffer = [1, 2], buffer_size = 2, head = 0, tail = 0, waiting = 0,
                    flags = {}, lock = False, data = [], space = []\<rparr>,
          threads = (\<lambda>t. Idle),
          returns = [(0, Write [1, 2] 2 K_NO_WAIT, 2, []), (0, Close, 0, []),
                     (0, Read [0, 0] 2 K_NO_WAIT, - EPIPE, [0, 0])]\<rparr>"
  by (simp add: pipe_defs kernel_defs Let_def insert_Diff_if insert_commute)

text \<open>
  When the pipe is not full at the time of close the claim holds (capacity below
  \<open>2 ^ 31\<close>): close returns 0, every write after it returns \<open>-EPIPE\<close> and leaves the
  pipe as it is, a read with \<open>len\<close> at least the occupancy delivers all the buffered
  bytes in order, and every read after that returns \<open>-EPIPE\<close>.
\<close>

lemma close_then_drain:
  assumes ok: "pipe_ok p" and sm: "fits_int p" and opn: "PIPE_FLAG_OPEN \<in> flags p"
    and nf: "PIPE_FLAG_FULL \<notin> flags p" and u: "utilization p = Inr u" and u0: "u \<noteq> 0"
    and len: "u \<le> len" and ldst: "unat len \<le> length dst"
  shows "\<exists>p1 w1 dst' p2 w2.
           z_impl_k_pipe_close p = (0, p1, w1) \<and>
           z_impl_k_pipe_write p1 dat wlen timeout1 t1 = Inr (Some (- EPIPE), p1, []) \<and>
           z_impl_k_pipe_read p1 dst len timeout2 t2 = Inr (Some (int (unat u), dst'), p2, w2) \<and>
           take (unat u) dst' = contents p \<and>
           z_impl_k_pipe_read p2 dst2 len2 timeout3 t3 = Inr (Some (- EPIPE, dst2), p2, [])"
proof -
  define p1 where "p1 = p\<lparr>flags := {}, data := [], space := [], lock := False\<rparr>"
  have cl: "z_impl_k_pipe_close p = (0, p1, data p @ space p)"
    using opn
    by (simp add: z_impl_k_pipe_close_def Let_def z_unpend_all_def waitq_set_def waitq_get_def
        k_spin_lock_def k_spin_unlock_def p1_def)
  have sz: "buffer_size p \<noteq> 0" using ok by (simp add: pipe_ok_def)
  have ok1: "pipe_ok p1" using ok by (simp add: pipe_ok_def p1_def)
  have u1: "utilization p1 = Inr u" using u nf sz by (simp add: utilization_def p1_def)
  have c1: "contents p1 = contents p" using u u1 by (simp add: contents_def p1_def)
  have sm1: "fits_int p1" using sm by (simp add: fits_int_def p1_def)
  have un: "unat u \<le> unat (buffer_size p)" using util_tail(2) [OF ok sm u] .
  have lc: "length (contents p) = unat u"
    using un ok by (simp add: contents_def u pipe_ok_def)
  have ne_full: "u \<noteq> buffer_size p1"
    using utilization_ok [OF ok1] u1 by (auto simp: p1_def)
  have w: "z_impl_k_pipe_write p1 dat wlen timeout1 t1 = Inr (Some (- EPIPE), p1, [])"
    using u1 ne_full
    by (simp add: z_impl_k_pipe_write_def Let_def queue_full_def k_spin_lock_def k_pipe_write_xfer_def
        k_spin_unlock_def p1_def)
  let ?q = "k_spin_lock p1"
  have okq: "pipe_ok ?q" and smq: "fits_int ?q" and uq: "utilization ?q = Inr u"
    and cq: "contents ?q = contents p"
    using ok1 sm1 u1 c1 by (simp_all add: k_spin_lock_def)
  have ne: "\<not> (u = 0 \<and> PIPE_FLAG_OPEN \<notin> flags ?q)" using u0 by simp
  from read_xfer_pipe_ok [OF okq ldst] obtain rc dst' p2 w2
    where x: "k_pipe_read_xfer ?q dst len = Inr ((rc, dst'), p2, w2)" by auto
  have rl: "min len u = u" using len by (simp add: min_absorb2)
  from read_xfer_contents [OF okq smq ldst uq ne x]
  have rc: "rc = int (unat u)" and u2: "utilization p2 = Inr 0"
    and d: "take (unat u) dst' = contents p"
    using lc by (simp_all add: rl cq)
  have r: "z_impl_k_pipe_read p1 dst len timeout2 t2 = Inr (Some (int (unat u), dst'), p2, w2)"
    using uq x rc u0 by (simp add: z_impl_k_pipe_read_def Let_def)
  have fq: "flags ?q = {}" by (simp add: p1_def k_spin_lock_def)
  from read_xfer_shape [OF okq ldst uq ne] x
  have "flags p2 \<subseteq> flags ?q" and l2: "\<not> lock p2"
    by (auto split: if_splits)
  then have cl2: "PIPE_FLAG_OPEN \<notin> flags p2" using fq by auto
  have r2: "z_impl_k_pipe_read p2 dst2 len2 timeout3 t3 = Inr (Some (- EPIPE, dst2), p2, [])"
    using u2 cl2 l2
    by (simp add: z_impl_k_pipe_read_def Let_def k_spin_lock_def k_pipe_read_xfer_def k_spin_unlock_def)
  show ?thesis using cl w r d r2 by blast
qed

subsection \<open>Ring indices\<close>

text \<open>
  Claim C10. A pipe is initialised with \<open>buffer_size > 0\<close> over a storage of that many
  bytes, and threads call write, read, reset and close in any order and interleaving,
  each write with \<open>len\<close> readable bytes and each read with \<open>len\<close> writable bytes. Then
  no step leaves the storage or divides by zero (the run ends in a state, not in a
  fault), and in the state reached \<open>head < buffer_size\<close>, \<open>tail < buffer_size\<close>, the
  storage still has \<open>buffer_size\<close> bytes, and the full flag is on only when
  \<open>head = tail\<close>.
\<close>

theorem ring_indices_in_bounds:
  assumes "sz \<noteq> 0" and "length storage = unat sz" and "\<forall>e\<in>set evs. wf_event e"
  shows "\<exists>k. run evs (boot storage sz) = Inr k \<and>
           buffer_size (kpipe k) = sz \<and> length (buffer (kpipe k)) = unat sz \<and>
           head (kpipe k) < sz \<and> tail (kpipe k) < sz \<and>
           (PIPE_FLAG_FULL \<in> flags (kpipe k) \<longrightarrow> head (kpipe k) = tail (kpipe k))"
proof -
  from run_kernel_ok [OF boot_kernel_ok(1) assms(3), OF assms(1,2)] boot_kernel_ok(2) [OF assms(1,2)]
  obtain k where "run evs (boot storage sz) = Inr k" "kernel_ok k" "buffer_size (kpipe k) = sz"
    by auto
  then show ?thesis by (auto simp: kernel_ok_def pipe_ok_def)
qed

theorem ring_indices_in_bounds_witness:
  "(4 :: size_t) \<noteq> 0 \<and> length [0, 0, 0, 0 :: uint8_t] = unat (4 :: size_t) \<and>
   wf_event (Call 0 (Write [1, 2, 3] 3 K_NO_WAIT)) \<and> wf_event (Call 1 (Read [0, 0] 2 K_FOREVER)) \<and>
   wf_event (Call 0 (Write [4, 5, 6] 3 K_NO_WAIT)) \<and>
   (\<exists>k. run [Call 0 (Write [1, 2, 3] 3 K_NO_WAIT), Call 1 (Read [0, 0] 2 K_FOREVER),
             Call 0 (Write [4, 5, 6] 3 K_NO_WAIT)] (boot [0, 0, 0, 0] 4) = Inr k \<and>
        buffer_size (kpipe k) = 4 \<and> length (buffer (kpipe k)) = unat (4 :: size_t) \<and>
        head (kpipe k) < 4 \<and> tail (kpipe k) < 4 \<and>
        (PIPE_FLAG_FULL \<in> flags (kpipe k) \<longrightarrow> head (kpipe k) = tail (kpipe k)))"
proof -
  have h1: "(4 :: size_t) \<noteq> 0" by simp
  have h2: "length [0, 0, 0, 0 :: uint8_t] = unat (4 :: size_t)" by simp
  have h3: "\<forall>e\<in>set [Call 0 (Write [1, 2, 3] 3 K_NO_WAIT), Call 1 (Read [0, 0] 2 K_FOREVER),
               Call 0 (Write [4, 5, 6] 3 K_NO_WAIT)]. wf_event e"
    by (simp add: wf_event_def wf_call_def)
  have h4: "wf_event (Call 0 (Write [1, 2, 3] 3 K_NO_WAIT)) \<and>
            wf_event (Call 1 (Read [0, 0] 2 K_FOREVER)) \<and>
            wf_event (Call 0 (Write [4, 5, 6] 3 K_NO_WAIT))"
    by (simp add: wf_event_def wf_call_def)
  from ring_indices_in_bounds [OF h1 h2 h3] h1 h2 h4 show ?thesis by blast
qed

subsection \<open>The closed state\<close>




subsection \<open>Zero-length calls\<close>

text \<open>
  Claim C4 says that a write or read with \<open>len = 0\<close> returns 0 without blocking for
  every pipe and timeout, also on a full pipe (write) and an empty one (read). The code
  has no test of \<open>len\<close> before the full test of write and the empty test of read. On
  a full pipe of two bytes a zero-length write with no-wait returns \<open>-11\<close>
  (\<open>-EAGAIN\<close>); on the fresh pipe a zero-length read with no-wait returns \<open>-11\<close>, and
  with timeout forever it suspends the caller and returns nothing.
\<close>

theorem zero_length_counterexample:
  "map_sum id returns
     (run [Call 0 (Write [1, 2] 2 K_NO_WAIT), Call 0 (Write [] 0 K_NO_WAIT)] (boot [0, 0] 2)) =
     Inr [(0, Write [1, 2] 2 K_NO_WAIT, 2, []), (0, Write [] 0 K_NO_WAIT, - 11, [])] \<and>
   map_sum id returns (run [Call 0 (Read [] 0 K_NO_WAIT)] (boot [0, 0] 2)) =
     Inr [(0, Read [] 0 K_NO_WAIT, - 11, [])] \<and>
   map_sum id kpipe (run [Call 0 (Read [] 0 K_FOREVER)] (boot [0, 0] 2)) =
     Inr \<lparr>buffer = [0, 0], buffer_size = 2, head = 0, tail = 0, waiting = 1,
          flags = {PIPE_FLAG_OPEN}, lock = False, data = [0], space = []\<rparr> \<and>
   map_sum id returns (run [Call 0 (Read [] 0 K_FOREVER)] (boot [0, 0] 2)) = Inr []"
  by (simp add: pipe_defs kernel_defs Let_def)

text \<open>
  Claim C4, amended. On a pipe in order, for every timeout: a write with \<open>len = 0\<close>
  returns 0 at once when the pipe is open and not full, and a read with \<open>len = 0\<close>
  returns 0 at once when the pipe is not empty; both leave the pipe and the
  destination as they were. On a full pipe the zero-length write, and on an empty open
  pipe the zero-length read, go through the wait helper: \<open>-EAGAIN\<close> at once when the
  timeout is no-wait or the reset flag is on, suspension on the wait queue otherwise.
\<close>

theorem zero_length_calls:
  assumes ok: "pipe_ok p"
  shows "(queue_full p = Inr False \<and> PIPE_FLAG_OPEN \<in> flags p \<longrightarrow>
            z_impl_k_pipe_write p dat 0 timeout t = Inr (Some 0, p\<lparr>lock := False\<rparr>, [])) \<and>
         (queue_empty p = Inr False \<longrightarrow>
            z_impl_k_pipe_read p dst 0 timeout t = Inr (Some (0, dst), p\<lparr>lock := False\<rparr>, [])) \<and>
         (queue_full p = Inr True \<longrightarrow>
            z_impl_k_pipe_write p dat 0 timeout t =
              (if K_TIMEOUT_EQ timeout K_NO_WAIT \<or> PIPE_FLAG_RESET \<in> flags p
               then Inr (Some (- EAGAIN), p\<lparr>lock := False\<rparr>, [])
               else Inr (None, p\<lparr>waiting := waiting p + 1, space := space p @ [t], lock := False\<rparr>, []))) \<and>
         (queue_empty p = Inr True \<and> PIPE_FLAG_OPEN \<in> flags p \<longrightarrow>
            z_impl_k_pipe_read p dst 0 timeout t =
              (if K_TIMEOUT_EQ timeout K_NO_WAIT \<or> PIPE_FLAG_RESET \<in> flags p
               then Inr (Some (- EAGAIN, dst), p\<lparr>lock := False\<rparr>, [])
               else Inr (None, p\<lparr>waiting := waiting p + 1, data := data p @ [t], lock := False\<rparr>, [])))"
proof -
  let ?p = "p\<lparr>lock := True\<rparr>"
  have ok': "pipe_ok ?p" using ok by simp
  from utilization_ok [OF ok] obtain u where u: "utilization p = Inr u" by blast
  then have u': "utilization ?p = Inr u" by simp
  have sz: "buffer_size p \<noteq> 0" and lb: "length (buffer p) = unat (buffer_size p)"
    and tl: "tail p < buffer_size p" and hd: "head p < buffer_size p"
    using ok by (simp_all add: pipe_ok_def)
  have tln: "unat (tail p) \<le> length (buffer p)"
    using tl lb by (simp add: word_less_nat_alt)
  have w: "PIPE_FLAG_OPEN \<in> flags p \<Longrightarrow>
           k_pipe_write_xfer ?p dat 0 = Inr (0, p\<lparr>lock := False\<rparr>, [])"
    using write_xfer_shape [OF ok' _ _ u', of 0 dat] tl tln
    by (simp add: ring_put_Nil mod_size_id)
  have r: "u \<noteq> 0 \<Longrightarrow> k_pipe_read_xfer ?p dst 0 = Inr ((0, dst), p\<lparr>lock := False\<rparr>, [])"
    using read_xfer_shape [OF ok' _ u', of 0 dst] hd
    by (simp add: mod_size_id)
  show ?thesis
    using u w r
    by (auto simp: z_impl_k_pipe_write_def z_impl_k_pipe_read_def queue_full_def queue_empty_def
        Let_def k_spin_lock_def k_spin_unlock_def wait_for_pend_def z_pend_curr_def
        waitq_set_def waitq_get_def EAGAIN_def EPIPE_def)
qed

theorem zero_length_calls_witness:
  "pipe_ok (z_impl_k_pipe_init [0, 0] 2) \<and>
   queue_full (z_impl_k_pipe_init [0, 0] 2) = Inr False \<and>
   PIPE_FLAG_OPEN \<in> flags (z_impl_k_pipe_init [0, 0] 2) \<and>
   z_impl_k_pipe_write (z_impl_k_pipe_init [0, 0] 2) [] 0 K_FOREVER 0 =
     Inr (Some 0, z_impl_k_pipe_init [0, 0] 2, []) \<and>
   queue_empty (z_impl_k_pipe_init [0, 0] 2) = Inr True \<and>
   z_impl_k_pipe_read (z_impl_k_pipe_init [0, 0] 2) [] 0 K_NO_WAIT 0 =
     Inr (Some (- EAGAIN, []), z_impl_k_pipe_init [0, 0] 2, []) \<and>
   pipe_ok ((z_impl_k_pipe_init [7, 0] 2)\<lparr>tail := 1\<rparr>) \<and>
   queue_empty ((z_impl_k_pipe_init [7, 0] 2)\<lparr>tail := 1\<rparr>) = Inr False \<and>
   z_impl_k_pipe_read ((z_impl_k_pipe_init [7, 0] 2)\<lparr>tail := 1\<rparr>) [] 0 K_FOREVER 0 =
     Inr (Some (0, []), (z_impl_k_pipe_init [7, 0] 2)\<lparr>tail := 1\<rparr>, [])"
proof -
  have h1: "pipe_ok (z_impl_k_pipe_init [0, 0] 2)"
    and h2: "pipe_ok ((z_impl_k_pipe_init [7, 0] 2)\<lparr>tail := 1\<rparr>)"
    by (simp_all add: pipe_ok_def z_impl_k_pipe_init_def)
  have h3: "queue_full (z_impl_k_pipe_init [0, 0] 2) = Inr False"
    and h4: "queue_empty (z_impl_k_pipe_init [0, 0] 2) = Inr True"
    and h5: "queue_empty ((z_impl_k_pipe_init [7, 0] 2)\<lparr>tail := 1\<rparr>) = Inr False"
    and h6: "PIPE_FLAG_OPEN \<in> flags (z_impl_k_pipe_init [0, 0] 2)"
    by (simp_all add: queue_full_def queue_empty_def utilization_def z_impl_k_pipe_init_def)
  have h7: "K_TIMEOUT_EQ K_NO_WAIT K_NO_WAIT" by (simp add: K_TIMEOUT_EQ_def)
  have e: "(z_impl_k_pipe_init [0, 0] 2)\<lparr>lock := False\<rparr> = z_impl_k_pipe_init [0, 0] 2"
    "(z_impl_k_pipe_init [7, 0] 2)\<lparr>tail := 1, lock := False\<rparr> = (z_impl_k_pipe_init [7, 0] 2)\<lparr>tail := 1\<rparr>"
    by (simp_all add: z_impl_k_pipe_init_def)
  show ?thesis
    using zero_length_calls [OF h1, of "[]" K_FOREVER 0 "[]"]
      zero_length_calls [OF h1, of "[]" K_NO_WAIT 0 "[]"]
      zero_length_calls [OF h2, of "[]" K_FOREVER 0 "[]"]
      h1 h2 h3 h4 h5 h6 h7 e
    by simp
qed

subsection \<open>Round trip and byte order\<close>

text \<open>
  Claim C5 says that \<open>N \<le> capacity\<close> bytes written into an empty open pipe come back
  from a following read of \<open>N\<close> bytes, for every \<open>N\<close>. For \<open>N = 0\<close> the write returns
  0 and leaves the pipe empty, and the read of 0 bytes finds an empty open pipe and
  goes to the wait helper: with no-wait it returns \<open>-11\<close> (\<open>-EAGAIN\<close>), not 0. For
  \<open>N = capacity = 2 ^ 31\<close> the write accepts all the bytes, and its count, returned
  through an \<^verbatim>\<open>int\<close>, reads \<open>- 2 ^ 31\<close>, not \<open>N\<close>.
\<close>

theorem roundtrip_counterexample:
  "map_sum id returns
     (run [Call 0 (Write [] 0 K_NO_WAIT), Call 0 (Read [] 0 K_NO_WAIT)] (boot [0, 0] 2)) =
     Inr [(0, Write [] 0 K_NO_WAIT, 0, []), (0, Read [] 0 K_NO_WAIT, - 11, [])] \<and>
   map_sum id fst
     (z_impl_k_pipe_write (z_impl_k_pipe_init (replicate (2 ^ 31) 0) (2 ^ 31))
        (replicate (2 ^ 31) 1) (2 ^ 31) K_NO_WAIT 0) = Inr (Some (- 2147483648))"
proof -
  from write_count_overflows_int
  have "map_sum id fst
     (z_impl_k_pipe_write (z_impl_k_pipe_init (replicate (2 ^ 31) 0) (2 ^ 31))
        (replicate (2 ^ 31) 1) (2 ^ 31) K_NO_WAIT 0) = Inr (Some (- 2147483648))"
    by auto
  then show ?thesis by (simp add: pipe_defs kernel_defs Let_def)
qed

text \<open>
  Claim C5, amended. The capacity is below \<open>2 ^ 31\<close> bytes. Round trip: on an empty
  open pipe in order, whatever the position of its indices, a write of
  \<open>1 \<le> N \<le> capacity\<close> bytes returns \<open>N\<close> and a following read of \<open>N\<close> bytes returns
  \<open>N\<close>, delivers those bytes in order and leaves the pipe empty, for all timeouts.
  Byte order: in every run from init in which threads only write and read, in any
  interleaving with timeouts and resumptions, the bytes accepted from writers are the
  bytes delivered to readers followed by the bytes still in the ring, so the bytes
  read are a prefix of the bytes written.
\<close>

theorem roundtrip_and_fifo:
  "(pipe_ok p \<and> fits_int p \<and> PIPE_FLAG_OPEN \<in> flags p \<and> queue_empty p = Inr True \<and>
    n \<noteq> 0 \<and> n \<le> buffer_size p \<and> unat n \<le> length dat \<and> unat n \<le> length dst \<longrightarrow>
      (\<exists>p1 w1 dst' p2 w2.
         z_impl_k_pipe_write p dat n timeout1 t1 = Inr (Some (int (unat n)), p1, w1) \<and>
         z_impl_k_pipe_read p1 dst n timeout2 t2 = Inr (Some (int (unat n), dst'), p2, w2) \<and>
         take (unat n) dst' = take (unat n) dat \<and> queue_empty p2 = Inr True)) \<and>
   (sz \<noteq> 0 \<and> unat sz < 2 ^ 31 \<and> length storage = unat sz \<and>
    (\<forall>e\<in>set evs. wf_event e \<and> io_event e) \<longrightarrow>
      (\<exists>k. run evs (boot storage sz) = Inr k \<and>
         written k = was_read k @ contents (kpipe k) \<and> prefix (was_read k) (written k)))"
  using roundtrip [of p n dat dst timeout1 t1 timeout2 t2] fifo_from_boot [of sz storage evs]
  by blast

theorem roundtrip_and_fifo_witness:
  "pipe_ok ((z_impl_k_pipe_init [0, 0, 0, 0] 4)\<lparr>head := 3, tail := 3\<rparr>) \<and>
   fits_int ((z_impl_k_pipe_init [0, 0, 0, 0] 4)\<lparr>head := 3, tail := 3\<rparr>) \<and>
   PIPE_FLAG_OPEN \<in> flags ((z_impl_k_pipe_init [0, 0, 0, 0] 4)\<lparr>head := 3, tail := 3\<rparr>) \<and>
   queue_empty ((z_impl_k_pipe_init [0, 0, 0, 0] 4)\<lparr>head := 3, tail := 3\<rparr>) = Inr True \<and>
   (3 :: size_t) \<noteq> 0 \<and>
   3 \<le> buffer_size ((z_impl_k_pipe_init [0, 0, 0, 0] 4)\<lparr>head := 3, tail := 3\<rparr>) \<and>
   unat (3 :: size_t) \<le> length [1, 2, 3 :: uint8_t] \<and>
   unat (3 :: size_t) \<le> length [0, 0, 0 :: uint8_t] \<and>
   (\<exists>p1 w1 dst' p2 w2.
      z_impl_k_pipe_write ((z_impl_k_pipe_init [0, 0, 0, 0] 4)\<lparr>head := 3, tail := 3\<rparr>)
        [1, 2, 3] 3 K_NO_WAIT 0 = Inr (Some (int (unat (3 :: size_t))), p1, w1) \<and>
      z_impl_k_pipe_read p1 [0, 0, 0] 3 K_FOREVER 1
        = Inr (Some (int (unat (3 :: size_t)), dst'), p2, w2) \<and>
      take (unat (3 :: size_t)) dst' = take (unat (3 :: size_t)) [1, 2, 3] \<and>
      queue_empty p2 = Inr True) \<and>
   buffer (fst (snd (projr (z_impl_k_pipe_write
     ((z_impl_k_pipe_init [0, 0, 0, 0] 4)\<lparr>head := 3, tail := 3\<rparr>) [1, 2, 3] 3 K_NO_WAIT 0))))
     = [2, 3, 0, 1] \<and>
   (4 :: size_t) \<noteq> 0 \<and> unat (4 :: size_t) < 2 ^ 31 \<and>
   length [0, 0, 0, 0 :: uint8_t] = unat (4 :: size_t) \<and>
   wf_event (Call 0 (Write [1, 2, 3] 3 K_NO_WAIT)) \<and> io_event (Call 0 (Write [1, 2, 3] 3 K_NO_WAIT)) \<and>
   wf_event (Call 1 (Read [0, 0] 2 K_FOREVER)) \<and> io_event (Call 1 (Read [0, 0] 2 K_FOREVER)) \<and>
   wf_event (Call 0 (Write [4, 5, 6] 3 K_NO_WAIT)) \<and> io_event (Call 0 (Write [4, 5, 6] 3 K_NO_WAIT)) \<and>
   (\<exists>k. run [Call 0 (Write [1, 2, 3] 3 K_NO_WAIT), Call 1 (Read [0, 0] 2 K_FOREVER),
             Call 0 (Write [4, 5, 6] 3 K_NO_WAIT)] (boot [0, 0, 0, 0] 4) = Inr k \<and>
        written k = was_read k @ contents (kpipe k) \<and> prefix (was_read k) (written k))"
proof -
  let ?P = "(z_impl_k_pipe_init [0, 0, 0, 0] 4)\<lparr>head := 3, tail := 3\<rparr>"
  let ?evs = "[Call 0 (Write [1, 2, 3] 3 K_NO_WAIT), Call 1 (Read [0, 0] 2 K_FOREVER),
               Call 0 (Write [4, 5, 6] 3 K_NO_WAIT)]"
  have a: "pipe_ok ?P \<and> fits_int ?P \<and> PIPE_FLAG_OPEN \<in> flags ?P \<and> queue_empty ?P = Inr True \<and>
           (3 :: size_t) \<noteq> 0 \<and> 3 \<le> buffer_size ?P \<and>
           unat (3 :: size_t) \<le> length [1, 2, 3 :: uint8_t] \<and>
           unat (3 :: size_t) \<le> length [0, 0, 0 :: uint8_t]"
    by (simp add: pipe_ok_def fits_int_def queue_empty_def utilization_def z_impl_k_pipe_init_def)
  have b: "(4 :: size_t) \<noteq> 0 \<and> unat (4 :: size_t) < 2 ^ 31 \<and>
           length [0, 0, 0, 0 :: uint8_t] = unat (4 :: size_t)"
    by simp
  have c: "wf_event (Call 0 (Write [1, 2, 3] 3 K_NO_WAIT)) \<and> io_event (Call 0 (Write [1, 2, 3] 3 K_NO_WAIT)) \<and>
           wf_event (Call 1 (Read [0, 0] 2 K_FOREVER)) \<and> io_event (Call 1 (Read [0, 0] 2 K_FOREVER)) \<and>
           wf_event (Call 0 (Write [4, 5, 6] 3 K_NO_WAIT)) \<and> io_event (Call 0 (Write [4, 5, 6] 3 K_NO_WAIT))"
    by (simp add: wf_event_def wf_call_def io_event_def)
  then have c': "\<forall>e\<in>set ?evs. wf_event e \<and> io_event e" by simp
  have w: "buffer (fst (snd (projr (z_impl_k_pipe_write ?P [1, 2, 3] 3 K_NO_WAIT 0)))) = [2, 3, 0, 1]"
    by (simp add: pipe_defs Let_def)
  from roundtrip_and_fifo [of ?P 3 "[1, 2, 3]" "[0, 0, 0]" K_NO_WAIT 0 K_FOREVER 1 4 "[0, 0, 0, 0]" ?evs]
    a b c'
  have "(\<exists>p1 w1 dst' p2 w2.
         z_impl_k_pipe_write ?P [1, 2, 3] 3 K_NO_WAIT 0 = Inr (Some (int (unat (3 :: size_t))), p1, w1) \<and>
         z_impl_k_pipe_read p1 [0, 0, 0] 3 K_FOREVER 1 = Inr (Some (int (unat (3 :: size_t)), dst'), p2, w2) \<and>
         take (unat (3 :: size_t)) dst' = take (unat (3 :: size_t)) [1, 2, 3] \<and> queue_empty p2 = Inr True)"
    and "(\<exists>k. run ?evs (boot [0, 0, 0, 0] 4) = Inr k \<and>
         written k = was_read k @ contents (kpipe k) \<and> prefix (was_read k) (written k))"
    by blast+
  with a b c w show ?thesis by blast
qed

end
